theory Spec2Isabelle
  imports Complex_Main
begin

section \<open>Rate limiter (src/rate-limiter.ts)\<close>

text \<open>
  Times and durations are JavaScript numbers holding integral millisecond values; they are
  modelled as \<open>int\<close>.  \<open>Date.now()\<close> is an explicit argument \<open>now\<close> of every operation
  that reads the clock.  The \<open>Map<string, RateLimitEntry>\<close> is a partial function on
  identifiers; the optional field \<open>blockedUntil\<close> is an \<open>int option\<close>.
\<close>

record RateLimitConfig =
  maxRequests :: int
  windowMs :: int
  blockDurationMs :: int

record RateLimitEntry =
  count :: int
  resetTime :: int
  blockedUntil :: "int option"

record 'k RateLimiter =
  requests :: "'k \<rightharpoonup> RateLimitEntry"
  config :: RateLimitConfig

text \<open>The constructor's default configuration.\<close>

definition defaultRateLimitConfig :: RateLimitConfig where
  "defaultRateLimitConfig = \<lparr>maxRequests = 100, windowMs = 60000, blockDurationMs = 300000\<rparr>"

definition newRateLimiter :: "RateLimitConfig \<Rightarrow> 'k RateLimiter" where
  "newRateLimiter cfg = \<lparr>requests = Map.empty, config = cfg\<rparr>"

text \<open>
  \<open>entry.blockedUntil && now < entry.blockedUntil\<close>: the field must be present and truthy
  (a number other than 0) and still in the future.
\<close>

definition isBlocked :: "RateLimitEntry \<Rightarrow> int \<Rightarrow> bool" where
  "isBlocked e now = (case blockedUntil e of None \<Rightarrow> False | Some b \<Rightarrow> b \<noteq> 0 \<and> now < b)"

text \<open>
  The condition under which \<open>cleanup\<close> deletes an entry:
  \<open>now >= entry.resetTime && (!entry.blockedUntil || now >= entry.blockedUntil)\<close>.
\<close>

definition isStale :: "RateLimitEntry \<Rightarrow> int \<Rightarrow> bool" where
  "isStale e now =
     (resetTime e \<le> now \<and> (case blockedUntil e of None \<Rightarrow> True | Some b \<Rightarrow> b = 0 \<or> b \<le> now))"

definition cleanup :: "('k \<rightharpoonup> RateLimitEntry) \<Rightarrow> int \<Rightarrow> ('k \<rightharpoonup> RateLimitEntry)" where
  "cleanup m now =
     (\<lambda>k. case m k of None \<Rightarrow> None | Some e \<Rightarrow> if isStale e now then None else Some e)"

text \<open>
  \<open>isAllowed\<close> reads \<open>entry\<close> before it runs \<open>cleanup\<close> and later mutates that object in
  place.  An in-place mutation is visible in the map only while the map still holds the
  object, which \<open>mutateEntry\<close> makes explicit.
\<close>

definition mutateEntry ::
  "('k \<rightharpoonup> RateLimitEntry) \<Rightarrow> 'k \<Rightarrow> RateLimitEntry \<Rightarrow> ('k \<rightharpoonup> RateLimitEntry)" where
  "mutateEntry m k e = (case m k of None \<Rightarrow> m | Some _ \<Rightarrow> m(k \<mapsto> e))"

definition isAllowed :: "'k RateLimiter \<Rightarrow> 'k \<Rightarrow> int \<Rightarrow> bool \<times> 'k RateLimiter" where
  "isAllowed rl identifier now =
     (let entry = requests rl identifier;
          cleaned = cleanup (requests rl) now
      in case entry of
           None \<Rightarrow>
             (True, rl\<lparr>requests := cleaned(identifier \<mapsto>
                \<lparr>count = 1, resetTime = now + windowMs (config rl), blockedUntil = None\<rparr>)\<rparr>)
         | Some e \<Rightarrow>
             if isBlocked e now then (False, rl\<lparr>requests := cleaned\<rparr>)
             else if resetTime e \<le> now then
               (True, rl\<lparr>requests := cleaned(identifier \<mapsto>
                  \<lparr>count = 1, resetTime = now + windowMs (config rl), blockedUntil = None\<rparr>)\<rparr>)
             else if maxRequests (config rl) \<le> count e then
               (False, rl\<lparr>requests := mutateEntry cleaned identifier
                  (e\<lparr>blockedUntil := Some (now + blockDurationMs (config rl))\<rparr>)\<rparr>)
             else
               (True, rl\<lparr>requests := mutateEntry cleaned identifier (e\<lparr>count := count e + 1\<rparr>)\<rparr>))"

definition getRemainingRequests :: "'k RateLimiter \<Rightarrow> 'k \<Rightarrow> int \<Rightarrow> int" where
  "getRemainingRequests rl identifier now =
     (case requests rl identifier of
        None \<Rightarrow> maxRequests (config rl)
      | Some e \<Rightarrow> if resetTime e \<le> now then maxRequests (config rl)
                  else max 0 (maxRequests (config rl) - count e))"

definition getTimeUntilReset :: "'k RateLimiter \<Rightarrow> 'k \<Rightarrow> int \<Rightarrow> int" where
  "getTimeUntilReset rl identifier now =
     (case requests rl identifier of None \<Rightarrow> 0 | Some e \<Rightarrow> max 0 (resetTime e - now))"

definition reset :: "'k RateLimiter \<Rightarrow> 'k \<Rightarrow> 'k RateLimiter" where
  "reset rl identifier = rl\<lparr>requests := (requests rl)(identifier := None)\<rparr>"

text \<open>
  A driver for consecutive \<open>isAllowed\<close> calls on one identifier, one clock reading per
  call: the answers in call order and the limiter after the last call.
\<close>

fun isAllowedCalls :: "'k RateLimiter \<Rightarrow> 'k \<Rightarrow> int list \<Rightarrow> bool list \<times> 'k RateLimiter" where
  "isAllowedCalls rl identifier [] = ([], rl)"
| "isAllowedCalls rl identifier (now # ts) =
     (let (ok, rl') = isAllowed rl identifier now;
          (oks, rl'') = isAllowedCalls rl' identifier ts
      in (ok # oks, rl''))"

section \<open>JavaScript strings\<close>

text \<open>
  A JavaScript string is a sequence of UTF-16 code units and \<open>.length\<close> counts code units,
  so a string is modelled as the list of its code units, each a natural number.  \<open>js\<close>
  turns a literal of the source into that form.
\<close>

type_synonym jsstring = "nat list"

definition js :: "string \<Rightarrow> jsstring" where
  "js s = map of_char s"

text \<open>
  The regular-expression class \<open>\s\<close> and \<open>String.prototype.trim\<close> use the same set:
  ECMAScript WhiteSpace (TAB, VT, FF, SP, NBSP, ZWNBSP and the Unicode space separators)
  together with LineTerminator (LF, CR, LS, PS).
\<close>

definition isWhiteSpace :: "nat \<Rightarrow> bool" where
  "isWhiteSpace c =
     ((0x09 \<le> c \<and> c \<le> 0x0D) \<or> c = 0x20 \<or> c = 0xA0 \<or> c = 0x1680
      \<or> (0x2000 \<le> c \<and> c \<le> 0x200A) \<or> c = 0x2028 \<or> c = 0x2029 \<or> c = 0x202F
      \<or> c = 0x205F \<or> c = 0x3000 \<or> c = 0xFEFF)"

definition trim :: "jsstring \<Rightarrow> jsstring" where
  "trim s = rev (dropWhile isWhiteSpace (rev (dropWhile isWhiteSpace s)))"


text \<open>
  Matching under the \<open>i\<close> flag (without \<open>u\<close>) canonicalises by upper-casing and never
  maps a non-ASCII code unit to an ASCII one, so against an ASCII pattern letter only the
  two ASCII cases of that letter match.  \<open>toLowerAscii\<close> folds \<open>A-Z\<close> to \<open>a-z\<close>; patterns
  are kept in lower case.
\<close>

definition toLowerAscii :: "nat \<Rightarrow> nat" where
  "toLowerAscii c = (if 0x41 \<le> c \<and> c \<le> 0x5A then c + 0x20 else c)"

definition startsWith :: "jsstring \<Rightarrow> jsstring \<Rightarrow> bool" where
  "startsWith s p = (take (length p) s = p)"

text \<open>\<open>s.includes(sub)\<close>: \<open>sub\<close> occurs in \<open>s\<close> as a contiguous substring.\<close>

fun includes_str :: "jsstring \<Rightarrow> jsstring \<Rightarrow> bool" where
  "includes_str [] sub = (sub = [])"
| "includes_str (c # cs) sub = (startsWith (c # cs) sub \<or> includes_str cs sub)"

text \<open>\<open>/lit/i.test(s)\<close> for a literal pattern \<open>lit\<close> given in lower case.\<close>

definition testLiteralIgnoreCase :: "jsstring \<Rightarrow> jsstring \<Rightarrow> bool" where
  "testLiteralIgnoreCase lit s = includes_str (map toLowerAscii s) lit"

section \<open>Error classes (src/errors.ts)\<close>

text \<open>
  The body of an HTTP response (\<open>response.data\<close>) as far as the client reads it: every
  field is optional.
\<close>

record response_data =
  data_message :: "jsstring option"
  data_error :: "jsstring option"
  data_error_description :: "jsstring option"
  data_access_token :: "jsstring option"
  data_token_type :: "jsstring option"
  data_expires_in :: "int option"
  data_refresh_token :: "jsstring option"
  data_scope :: "jsstring option"
  data_created_at :: "int option"

datatype error_class =
    TalkSASAAPIError
  | TalkSASAValidationError
  | TalkSASANetworkError
  | TalkSASAAuthenticationError
  | TalkSASAQuotaExceededError
  | TalkSASAInsufficientBalanceError
  | TypeError

text \<open>
  An error object.  \<open>isRetryable\<close> is \<open>None\<close> when the object has no such property (the
  interface \<open>TalkSASAError\<close> declares it optional); every class below sets it.
\<close>

record error =
  name :: error_class
  message :: jsstring
  statusCode :: "int option"
  response :: "response_data option"
  isRetryable :: "bool option"

definition APIError :: "jsstring \<Rightarrow> int option \<Rightarrow> response_data option \<Rightarrow> bool \<Rightarrow> error" where
  "APIError msg sc resp retryable =
     \<lparr>name = TalkSASAAPIError, message = msg, statusCode = sc, response = resp,
      isRetryable = Some retryable\<rparr>"

definition ValidationError :: "jsstring \<Rightarrow> error" where
  "ValidationError msg =
     \<lparr>name = TalkSASAValidationError, message = msg, statusCode = Some 400, response = None,
      isRetryable = Some False\<rparr>"

definition NetworkError :: "jsstring \<Rightarrow> error" where
  "NetworkError msg =
     \<lparr>name = TalkSASANetworkError, message = msg, statusCode = None, response = None,
      isRetryable = Some True\<rparr>"

definition AuthenticationError :: "jsstring \<Rightarrow> error" where
  "AuthenticationError msg =
     \<lparr>name = TalkSASAAuthenticationError, message = msg, statusCode = Some 401, response = None,
      isRetryable = Some False\<rparr>"

definition QuotaExceededError :: "jsstring \<Rightarrow> error" where
  "QuotaExceededError msg =
     \<lparr>name = TalkSASAQuotaExceededError, message = msg, statusCode = Some 429, response = None,
      isRetryable = Some True\<rparr>"

definition InsufficientBalanceError :: "jsstring \<Rightarrow> error" where
  "InsufficientBalanceError msg =
     \<lparr>name = TalkSASAInsufficientBalanceError, message = msg, statusCode = Some 402,
      response = None, isRetryable = Some False\<rparr>"

text \<open>
  The native \<open>TypeError\<close> of a property read on \<open>undefined\<close>; it has no \<open>statusCode\<close> and
  no \<open>isRetryable\<close> property.
\<close>

definition NativeTypeError :: "jsstring \<Rightarrow> error" where
  "NativeTypeError msg =
     \<lparr>name = TypeError, message = msg, statusCode = None, response = None, isRetryable = None\<rparr>"

text \<open>JavaScript truthiness of an optional string and of an optional number.\<close>

definition truthyStr :: "jsstring option \<Rightarrow> bool" where
  "truthyStr v = (case v of None \<Rightarrow> False | Some s \<Rightarrow> s \<noteq> [])"

definition truthyNum :: "'a::zero option \<Rightarrow> bool" where
  "truthyNum v = (case v of None \<Rightarrow> False | Some n \<Rightarrow> n \<noteq> 0)"

section \<open>Retry with exponential backoff (src/utils.ts, \<open>Utils.retry\<close>)\<close>

text \<open>
  The three fields of a policy are JavaScript numbers.  They are modelled as real numbers,
  which covers every finite number, whole or fractional; \<open>NaN\<close> and the infinities are
  not covered.
\<close>

record RetryOptions =
  maxRetries :: real
  retryDelay :: real
  backoffMultiplier :: real

definition defaultRetryOptions :: RetryOptions where
  "defaultRetryOptions = \<lparr>maxRetries = 3, retryDelay = 1000, backoffMultiplier = 2\<rparr>"

text \<open>
  The delay \<open>retryDelay * Math.pow(backoffMultiplier, attempt)\<close> is computed in double
  precision.  A whole number of magnitude at most \<open>2^53\<close> is a double, and a product or a
  power of such numbers that is again such a number is computed without rounding
  (\<open>Math.pow\<close> is taken to return the power itself when the power is a double).  There
  the delay is the real product, \<open>Some\<close> of it; everywhere else the model leaves the
  double that the engine computes undetermined, \<open>None\<close>.
\<close>

definition exactInteger :: "real \<Rightarrow> bool" where
  "exactInteger x = (of_int \<lfloor>x\<rfloor> = x \<and> \<bar>x\<bar> \<le> 2 ^ 53)"

definition backoffDelay :: "RetryOptions \<Rightarrow> nat \<Rightarrow> real option" where
  "backoffDelay options attempt =
     (if exactInteger (retryDelay options) \<and> exactInteger (backoffMultiplier options)
         \<and> exactInteger (backoffMultiplier options ^ attempt)
         \<and> exactInteger (retryDelay options * backoffMultiplier options ^ attempt)
      then Some (retryDelay options * backoffMultiplier options ^ attempt)
      else None)"

text \<open>
  What one run of \<open>retry\<close> did: the value it returned (\<open>Inr\<close>) or threw (\<open>Inl\<close>, where
  \<open>None\<close> is the \<open>undefined\<close> of a \<open>lastError\<close> that was never assigned), how often it
  invoked the operation, and the delays it passed to \<open>sleep\<close>, in order.  A delay is the
  argument of \<open>setTimeout\<close>; what the timer makes of a delay outside its range is not
  modelled.
\<close>

record 'a retry_run =
  outcome :: "error option + 'a"
  calls :: nat
  sleeps :: "real option list"

text \<open>
  The operation \<open>fn\<close> has effects, so its result may differ from one invocation to the
  next: \<open>fn i\<close> is what the invocation with 0-based index \<open>i\<close> does, \<open>Inl\<close> for a thrown
  error; every invocation is taken to settle.  Every iteration of the \<open>for\<close> loop invokes
  \<open>fn\<close> once, so the loop variable \<open>attempt\<close> is also the index of the invocation.  The
  test \<open>'isRetryable' in error && !error.isRetryable\<close> holds when the property is present
  and false.  With a fractional \<open>maxRetries\<close> the test \<open>attempt === maxRetries\<close> never
  holds, and the loop ends through its condition, after a last sleep.  The loop variable
  is a natural number here; \<open>attempt++\<close> on a double is the successor up to \<open>2 ^ 53\<close>, so
  the model is that of the code for policies with \<open>maxRetries \<le> 2 ^ 53\<close>.
\<close>

function retry_loop ::
  "(nat \<Rightarrow> error + 'a) \<Rightarrow> RetryOptions \<Rightarrow> nat \<Rightarrow> error option \<Rightarrow> real option list
     \<Rightarrow> 'a retry_run" where
  "retry_loop fn options attempt lastError slept =
     (if real attempt \<le> maxRetries options then
        (case fn attempt of
           Inr v \<Rightarrow> \<lparr>outcome = Inr v, calls = attempt + 1, sleeps = slept\<rparr>
         | Inl err \<Rightarrow>
             if real attempt = maxRetries options then
               \<lparr>outcome = Inl (Some err), calls = attempt + 1, sleeps = slept\<rparr>
             else if isRetryable err = Some False then
               \<lparr>outcome = Inl (Some err), calls = attempt + 1, sleeps = slept\<rparr>
             else
               retry_loop fn options (attempt + 1) (Some err)
                 (slept @ [backoffDelay options attempt]))
      else \<lparr>outcome = Inl lastError, calls = attempt, sleeps = slept\<rparr>)"
  by pat_completeness auto
termination
proof (relation "measure (\<lambda>(fn, options, attempt, lastError, slept).
        nat (\<lfloor>maxRetries options\<rfloor> + 1 - int attempt))")
  show "wf (measure (\<lambda>(fn, options, attempt, lastError, slept).
        nat (\<lfloor>maxRetries options\<rfloor> + 1 - int attempt)))"
    by simp
next
  fix fn :: "nat \<Rightarrow> error + 'a" and options :: RetryOptions and attempt :: nat
    and lastError :: "error option" and slept :: "real option list" and err :: error
  assume "real attempt \<le> maxRetries options"
  then have "int attempt \<le> \<lfloor>maxRetries options\<rfloor>" by (simp add: le_floor_iff)
  then show "((fn, options, attempt + 1, Some err, slept @ [backoffDelay options attempt]),
              (fn, options, attempt, lastError, slept))
         \<in> measure (\<lambda>(fn, options, attempt, lastError, slept).
              nat (\<lfloor>maxRetries options\<rfloor> + 1 - int attempt))"
    by simp
qed

declare retry_loop.simps [simp del]

definition retry :: "(nat \<Rightarrow> error + 'a) \<Rightarrow> RetryOptions \<Rightarrow> 'a retry_run" where
  "retry fn options = retry_loop fn options 0 None []"

subsection \<open>Example operations\<close>

text \<open>
  Three operations used as concrete inputs below: one that always fails with a (retryable)
  network error, one that fails twice so and then returns 42, and one that fails with a
  (non-retryable) validation error.
\<close>

definition failingOperation :: "nat \<Rightarrow> error + unit" where
  "failingOperation i = Inl (NetworkError (js ''down''))"

definition flakyOperation :: "nat \<Rightarrow> error + int" where
  "flakyOperation i = (if i < 2 then Inl (NetworkError (js ''down'')) else Inr 42)"

definition rejectedOperation :: "nat \<Rightarrow> error + int" where
  "rejectedOperation i = Inl (ValidationError (js ''bad''))"

section \<open>Scrubbing error messages (src/talksasa-client.ts, \<open>sanitizeErrorMessage\<close>)\<close>

text \<open>
  The four patterns have the shape \<open>/key[=:]\s*[^\s,]+/gi\<close>.  \<open>matchKeyValue key s\<close> matches
  one of them at the start of \<open>s\<close> and returns what follows the match: the keyword in
  either case, one separator \<open>=\<close> or \<open>:\<close>, the longest run of white space, and the longest
  run of characters that are neither white space nor a comma, which must not be empty.
  Taking less white space cannot help the match, since the value would then have to
  start with a white-space character, so greedy matching needs no backtracking.
\<close>

definition isSeparator :: "nat \<Rightarrow> bool" where
  "isSeparator c = (c = 0x3D \<or> c = 0x3A)"

definition isValueChar :: "nat \<Rightarrow> bool" where
  "isValueChar c = (\<not> isWhiteSpace c \<and> c \<noteq> 0x2C)"

definition matchKeyValue :: "jsstring \<Rightarrow> jsstring \<Rightarrow> jsstring option" where
  "matchKeyValue key s =
     (if startsWith (map toLowerAscii s) key then
        (case drop (length key) s of
           [] \<Rightarrow> None
         | c # r \<Rightarrow>
             if isSeparator c then
               (let v = dropWhile isWhiteSpace r
                in if takeWhile isValueChar v = [] then None
                   else Some (dropWhile isValueChar v))
             else None)
      else None)"

lemma matchKeyValue_shorter:
  assumes "matchKeyValue key s = Some rest"
  shows "length rest < length s"
proof -
  from assms obtain c r where d: "drop (length key) s = c # r"
    and rest: "rest = dropWhile isValueChar (dropWhile isWhiteSpace r)"
    by (auto simp: matchKeyValue_def Let_def split: if_splits list.splits)
  have "length rest \<le> length r"
    unfolding rest
    by (rule order_trans[OF length_dropWhile_le length_dropWhile_le])
  also have "length r < length (drop (length key) s)" by (simp add: d)
  also have "\<dots> \<le> length s" by simp
  finally show ?thesis .
qed

text \<open>
  \<open>s.replace(/key[=:]\s*[^\s,]+/gi, rep)\<close>: scan from the left; at a position where the
  pattern matches, emit \<open>rep\<close> and go on behind the match, otherwise emit the character
  and go on behind it.
\<close>

function replaceKeyValue :: "jsstring \<Rightarrow> jsstring \<Rightarrow> jsstring \<Rightarrow> jsstring" where
  "replaceKeyValue key rep [] = []"
| "replaceKeyValue key rep (c # cs) =
     (case matchKeyValue key (c # cs) of
        Some rest \<Rightarrow> rep @ replaceKeyValue key rep rest
      | None \<Rightarrow> c # replaceKeyValue key rep cs)"
  by pat_completeness auto
termination
  by (relation "measure (\<lambda>(key, rep, s). length s)") (auto dest: matchKeyValue_shorter)

text \<open>The chain of the four \<open>replace\<close> calls of \<open>sanitizeErrorMessage\<close>, in its order.\<close>

definition replaceSecrets :: "jsstring \<Rightarrow> jsstring" where
  "replaceSecrets msg =
     replaceKeyValue (js ''secret'') (js ''secret=***'')
       (replaceKeyValue (js ''key'') (js ''key=***'')
         (replaceKeyValue (js ''token'') (js ''token=***'')
           (replaceKeyValue (js ''password'') (js ''password=***'') msg)))"

definition sanitizeErrorMessage :: "jsstring \<Rightarrow> jsstring" where
  "sanitizeErrorMessage msg =
     (if msg = [] then js ''Unknown error''
      else
        let sanitized = replaceSecrets msg
        in if length sanitized > 500 then take 500 sanitized @ js ''...'' else sanitized)"

subsection \<open>Notions for reasoning about the replacements\<close>

text \<open>
  A keyword is a non-empty string of lower-case letters; its placeholder is the
  replacement text.  Two strings mismatch when they differ within the length of the
  shorter one, so that neither can begin the other.  A string \<open>w\<close> is apart from a
  placeholder when a keyword ending in \<open>w\<close> cannot reach into the placeholder and find
  its separator there: they mismatch, or \<open>w\<close> is shorter and what follows it in the
  placeholder is no separator.  \<open>allTails P s\<close> says that \<open>P\<close> holds of every non-empty
  suffix of \<open>s\<close>.  A value ends at \<open>s\<close> when \<open>s\<close> is empty or begins with white space or a
  comma.  A text is scrubbed for a keyword when the pattern of that keyword matches in it
  only where the placeholder stands, and matches just the placeholder.
\<close>

definition isLowerLetter :: "nat \<Rightarrow> bool" where
  "isLowerLetter c = (0x61 \<le> c \<and> c \<le> 0x7A)"

definition isKeyword :: "jsstring \<Rightarrow> bool" where
  "isKeyword key = (key \<noteq> [] \<and> list_all isLowerLetter key)"

definition placeholder :: "jsstring \<Rightarrow> jsstring" where
  "placeholder key = key @ js ''=***''"

definition mismatch :: "jsstring \<Rightarrow> jsstring \<Rightarrow> bool" where
  "mismatch a b = (take (min (length a) (length b)) a \<noteq> take (min (length a) (length b)) b)"

definition apart :: "jsstring \<Rightarrow> jsstring \<Rightarrow> bool" where
  "apart w rep = (mismatch w rep \<or> (length w < length rep \<and> \<not> isSeparator (rep ! length w)))"

fun allTails :: "(jsstring \<Rightarrow> bool) \<Rightarrow> jsstring \<Rightarrow> bool" where
  "allTails P [] = True"
| "allTails P (c # cs) = (P (c # cs) \<and> allTails P cs)"

definition valueEnds :: "jsstring \<Rightarrow> bool" where
  "valueEnds s = (s = [] \<or> \<not> isValueChar (hd s))"

definition scrubbed :: "jsstring \<Rightarrow> jsstring \<Rightarrow> bool" where
  "scrubbed K s =
     (\<forall>i rest. matchKeyValue K (drop i s) = Some rest \<longrightarrow> drop i s = placeholder K @ rest)"

text \<open>
  The four keywords in the order of the \<open>replace\<close> calls.  \<open>noMatchIn K w X\<close> says that in
  the text \<open>w @ X\<close> the pattern of \<open>K\<close> matches at no position inside \<open>w\<close>.
\<close>

definition secretKeys :: "jsstring list" where
  "secretKeys = [js ''password'', js ''token'', js ''key'', js ''secret'']"

fun noMatchIn :: "jsstring \<Rightarrow> jsstring \<Rightarrow> jsstring \<Rightarrow> bool" where
  "noMatchIn K [] X = True"
| "noMatchIn K (a # w) X = (matchKeyValue K ((a # w) @ X) = None \<and> noMatchIn K w X)"

section \<open>Mapping transport failures (\<open>handleError\<close>, \<open>Utils.createNetworkError\<close>)\<close>

text \<open>
  What the HTTP library hands to the response interceptors: a response with its status
  and body, or a failure object.  A failure has a \<open>response\<close> when the server answered
  with an error status, a \<open>request\<close> when the request was sent, and the message
  properties that \<open>Utils.extractErrorMessage\<close> probes.
\<close>

record axios_response =
  status :: int
  data :: "response_data option"

record axios_error =
  err_response :: "axios_response option"
  err_request :: bool
  err_message :: "jsstring option"
  err_error :: "jsstring option"
  err_errorMessage :: "jsstring option"
  err_details :: "jsstring option"

definition extractErrorMessage :: "axios_error \<Rightarrow> jsstring" where
  "extractErrorMessage e =
     (if truthyStr (err_message e) then the (err_message e)
      else if truthyStr (err_error e) then the (err_error e)
      else if truthyStr (err_errorMessage e) then the (err_errorMessage e)
      else if truthyStr (err_details e) then the (err_details e)
      else js ''Unknown error occurred'')"

definition createNetworkError :: "axios_error \<Rightarrow> error" where
  "createNetworkError e = NetworkError (js ''Network error: '' @ extractErrorMessage e)"

text \<open>\<open>responseData?.field\<close>: the field of the body when there is a body.\<close>

definition field :: "(response_data \<Rightarrow> 'a option) \<Rightarrow> response_data option \<Rightarrow> 'a option" where
  "field f d = (case d of None \<Rightarrow> None | Some b \<Rightarrow> f b)"

text \<open>\<open>a || b\<close> on optional strings, with a string as the last alternative.\<close>

definition orElse :: "jsstring option \<Rightarrow> jsstring \<Rightarrow> jsstring" where
  "orElse a b = (if truthyStr a then the a else b)"

text \<open>\<open>TalkSASAClient.handleError\<close>.\<close>

definition handleError :: "axios_error \<Rightarrow> error" where
  "handleError e =
     (case err_response e of
        Some resp \<Rightarrow>
          (let statusCode = status resp;
               responseData = data resp;
               sanitizedMessage =
                 sanitizeErrorMessage (orElse (field data_message responseData) (js ''API request failed''))
           in if statusCode = 401 then AuthenticationError (js ''Authentication failed'')
              else if statusCode = 402 then InsufficientBalanceError (js ''Insufficient balance'')
              else if statusCode = 429 then QuotaExceededError (js ''Quota exceeded'')
              else APIError sanitizedMessage (Some statusCode) responseData (500 \<le> statusCode))
      | None \<Rightarrow>
          if err_request e then createNetworkError e
          else APIError (js ''An unexpected error occurred'') None None False)"

text \<open>\<open>TalkSASAOAuth2Client.handleError\<close>.\<close>

definition oauthHandleError :: "axios_error \<Rightarrow> error" where
  "oauthHandleError e =
     (case err_response e of
        Some resp \<Rightarrow>
          (let statusCode = status resp;
               responseData = data resp
           in if statusCode = 401 then
                AuthenticationError
                  (orElse (field data_error_description responseData)
                     (orElse (field data_error responseData) (js ''OAuth authentication failed'')))
              else if statusCode = 400 then
                APIError
                  (orElse (field data_error_description responseData)
                     (orElse (field data_error responseData) (js ''OAuth request failed'')))
                  (Some statusCode) responseData False
              else
                APIError
                  (orElse (field data_error_description responseData)
                     (orElse (field data_error responseData) (js ''OAuth API request failed'')))
                  (Some statusCode) responseData (500 \<le> statusCode))
      | None \<Rightarrow>
          if err_request e then createNetworkError e
          else APIError (orElse (err_message e) (js ''Unknown OAuth error occurred'')) None None True)"

subsection \<open>Example failures\<close>

text \<open>
  Concrete inputs used below: the failure of a request answered with a given status and
  the body \<open>{message: "boom"}\<close>, and the failure of a request that got no answer.
\<close>

definition statusFailure :: "int \<Rightarrow> axios_error" where
  "statusFailure code =
     \<lparr>err_response = Some \<lparr>status = code,
         data = Some \<lparr>data_message = Some (js ''boom''), data_error = None,
                      data_error_description = None, data_access_token = None,
                      data_token_type = None, data_expires_in = None,
                      data_refresh_token = None, data_scope = None, data_created_at = None\<rparr>\<rparr>,
      err_request = True, err_message = Some (js ''Request failed''), err_error = None,
      err_errorMessage = None, err_details = None\<rparr>"

definition connectionFailure :: axios_error where
  "connectionFailure =
     \<lparr>err_response = None, err_request = True, err_message = Some (js ''timeout''),
      err_error = None, err_errorMessage = None, err_details = None\<rparr>"

section \<open>Validators (src/validators.ts)\<close>

subsection \<open>Phone numbers\<close>





subsection \<open>API keys\<close>

text \<open>\<open>/^[\x20-\x7E]+$/\<close> on a whole string.\<close>

definition isPrintableAscii :: "nat \<Rightarrow> bool" where
  "isPrintableAscii c = (0x20 \<le> c \<and> c \<le> 0x7E)"

definition testPrintableAscii :: "jsstring \<Rightarrow> bool" where
  "testPrintableAscii s = (s \<noteq> [] \<and> list_all isPrintableAscii s)"

text \<open>\<open>/sh\s/i\<close>: the letters s and h in either case, then a white-space character.\<close>

fun testShSpace :: "jsstring \<Rightarrow> bool" where
  "testShSpace (a # b # c # r) =
     ((toLowerAscii a = 0x73 \<and> toLowerAscii b = 0x68 \<and> isWhiteSpace c) \<or> testShSpace (b # c # r))"
| "testShSpace _ = False"

text \<open>The list \<open>attackPatterns\<close>, in the order of the source.\<close>

definition attackPatternFound :: "jsstring \<Rightarrow> bool" where
  "attackPatternFound s =
     (includes_str s (js ''..'')
      \<or> includes_str s (js ''//'')
      \<or> testLiteralIgnoreCase (js ''<script'') s
      \<or> testLiteralIgnoreCase (js ''javascript:'') s
      \<or> testLiteralIgnoreCase (js ''eval('') s
      \<or> testLiteralIgnoreCase (js ''exec('') s
      \<or> testLiteralIgnoreCase (js ''system('') s
      \<or> testLiteralIgnoreCase (js ''shell'') s
      \<or> testLiteralIgnoreCase (js ''cmd'') s
      \<or> testLiteralIgnoreCase (js ''powershell'') s
      \<or> testLiteralIgnoreCase (js ''bash'') s
      \<or> testShSpace s)"

definition validateApiKey :: "jsstring \<Rightarrow> error + jsstring" where
  "validateApiKey apiKey =
     (if apiKey = [] then Inl (ValidationError (js ''API key is required''))
      else if length apiKey > 200 then
        Inl (ValidationError (js ''API key is too long for processing''))
      else if length (trim apiKey) = 0 then
        Inl (ValidationError (js ''API key cannot be empty''))
      else if length apiKey < 10 then
        Inl (ValidationError (js ''API key appears to be invalid''))
      else
        let trimmed = trim apiKey
        in if \<not> testPrintableAscii trimmed then
             Inl (ValidationError (js ''API key contains invalid characters''))
           else if attackPatternFound trimmed then
             Inl (ValidationError (js ''API key contains potentially malicious content''))
           else Inr trimmed)"

subsection \<open>OAuth 2.0 request fields\<close>

definition validateClientId :: "jsstring \<Rightarrow> error + jsstring" where
  "validateClientId clientId =
     (if clientId = [] then Inl (ValidationError (js ''OAuth client ID is required''))
      else
        let trimmed = trim clientId
        in if length trimmed = 0 then Inl (ValidationError (js ''OAuth client ID cannot be empty''))
           else if length trimmed < 10 then
             Inl (ValidationError (js ''OAuth client ID appears to be invalid''))
           else Inr trimmed)"

definition validateClientSecret :: "jsstring \<Rightarrow> error + jsstring" where
  "validateClientSecret clientSecret =
     (if clientSecret = [] then Inl (ValidationError (js ''OAuth client secret is required''))
      else
        let trimmed = trim clientSecret
        in if length trimmed = 0 then
             Inl (ValidationError (js ''OAuth client secret cannot be empty''))
           else if length trimmed < 10 then
             Inl (ValidationError (js ''OAuth client secret appears to be invalid''))
           else Inr trimmed)"

definition validGrantTypes :: "jsstring list" where
  "validGrantTypes = [js ''client_credentials'', js ''password'', js ''refresh_token'']"

definition validateGrantType :: "jsstring \<Rightarrow> error + jsstring" where
  "validateGrantType grantType =
     (if grantType \<notin> set validGrantTypes then
        Inl (ValidationError
          (js ''Invalid grant type. Must be one of: client_credentials, password, refresh_token''))
      else Inr grantType)"

definition validateScope :: "jsstring \<Rightarrow> error + jsstring" where
  "validateScope scope =
     (let trimmed = trim scope
      in if length trimmed > 200 then
           Inl (ValidationError
             (js ''OAuth scope is too long. Maximum length is 200 characters.''))
         else Inr trimmed)"

definition validateOAuthUsername :: "jsstring \<Rightarrow> error + jsstring" where
  "validateOAuthUsername username =
     (if username = [] then
        Inl (ValidationError (js ''OAuth username is required for password grant''))
      else
        let trimmed = trim username
        in if length trimmed = 0 then Inl (ValidationError (js ''OAuth username cannot be empty''))
           else if length trimmed > 100 then
             Inl (ValidationError
               (js ''OAuth username is too long. Maximum length is 100 characters.''))
           else Inr trimmed)"

definition validateOAuthPassword :: "jsstring \<Rightarrow> error + jsstring" where
  "validateOAuthPassword password =
     (if password = [] then
        Inl (ValidationError (js ''OAuth password is required for password grant''))
      else
        let trimmed = trim password
        in if length trimmed = 0 then Inl (ValidationError (js ''OAuth password cannot be empty''))
           else Inr trimmed)"

definition validateRefreshToken :: "jsstring \<Rightarrow> error + jsstring" where
  "validateRefreshToken refreshToken =
     (if refreshToken = [] then Inl (ValidationError (js ''OAuth refresh token is required''))
      else
        let trimmed = trim refreshToken
        in if length trimmed = 0 then
             Inl (ValidationError (js ''OAuth refresh token cannot be empty''))
           else Inr trimmed)"

section \<open>OAuth 2.0 client (src/oauth2-client.ts)\<close>

record OAuth2TokenRequest =
  req_grant_type :: jsstring
  req_client_id :: jsstring
  req_client_secret :: jsstring
  req_username :: "jsstring option"
  req_password :: "jsstring option"
  req_refresh_token :: "jsstring option"
  req_scope :: "jsstring option"

record OAuth2TokenResponse =
  resp_access_token :: jsstring
  resp_token_type :: jsstring
  resp_expires_in :: int
  resp_refresh_token :: "jsstring option"
  resp_scope :: "jsstring option"
  resp_created_at :: int

record OAuth2TokenInfo =
  access_token :: jsstring
  token_type :: jsstring
  expires_at :: int
  scope :: "jsstring option"
  refresh_token :: "jsstring option"
  isExpired :: bool

text \<open>
  The state of a client.  Of the constructor's work the base URL and the HTTP instance
  are left out: the network is the parameter \<open>net\<close> of the operations below.
\<close>

record OAuth2Client =
  clientId :: jsstring
  clientSecret :: jsstring
  retryOptions :: RetryOptions
  tokenInfo :: "OAuth2TokenInfo option"


text \<open>Sequencing of steps that may throw.\<close>

definition andThen :: "'e + 'a \<Rightarrow> ('a \<Rightarrow> 'e + 'b) \<Rightarrow> 'e + 'b" where
  "andThen r f = (case r of Inl e \<Rightarrow> Inl e | Inr v \<Rightarrow> f v)"


subsection \<open>Expiry\<close>

definition isTokenExpired :: "OAuth2Client \<Rightarrow> int \<Rightarrow> bool" where
  "isTokenExpired c now =
     (case tokenInfo c of
        None \<Rightarrow> True
      | Some ti \<Rightarrow> (let buffer = 5 * 60 * 1000 in expires_at ti - buffer \<le> now))"

definition isTokenValid :: "OAuth2Client \<Rightarrow> int \<Rightarrow> bool" where
  "isTokenValid c now = (tokenInfo c \<noteq> None \<and> \<not> isTokenExpired c now)"

definition getTokenInfo :: "OAuth2Client \<Rightarrow> int \<Rightarrow> OAuth2TokenInfo option" where
  "getTokenInfo c now =
     (case tokenInfo c of None \<Rightarrow> None | Some ti \<Rightarrow> Some (ti\<lparr>isExpired := isTokenExpired c now\<rparr>))"

definition setTokenInfo :: "OAuth2Client \<Rightarrow> OAuth2TokenInfo \<Rightarrow> OAuth2Client" where
  "setTokenInfo c ti = c\<lparr>tokenInfo := Some ti\<rparr>"

definition clearToken :: "OAuth2Client \<Rightarrow> OAuth2Client" where
  "clearToken c = c\<lparr>tokenInfo := None\<rparr>"

subsection \<open>Token requests\<close>

definition validateTokenRequest :: "OAuth2TokenRequest \<Rightarrow> error + OAuth2TokenRequest" where
  "validateTokenRequest request =
     andThen (validateGrantType (req_grant_type request)) (\<lambda>grant.
     andThen (validateClientId (req_client_id request)) (\<lambda>cid.
     andThen (validateClientSecret (req_client_secret request)) (\<lambda>secret.
     andThen
       (if truthyStr (req_scope request) then
          andThen (validateScope (the (req_scope request))) (\<lambda>s. Inr (Some s))
        else Inr None) (\<lambda>vscope.
     andThen
       (if req_grant_type request = js ''password'' then
          if \<not> truthyStr (req_username request) \<or> \<not> truthyStr (req_password request) then
            Inl (ValidationError (js ''Username and password are required for password grant''))
          else
            andThen (validateOAuthUsername (the (req_username request))) (\<lambda>u.
            andThen (validateOAuthPassword (the (req_password request))) (\<lambda>p.
              Inr (Some u, Some p)))
        else Inr (None, None)) (\<lambda>(vuser, vpass).
     andThen
       (if req_grant_type request = js ''refresh_token'' then
          if \<not> truthyStr (req_refresh_token request) then
            Inl (ValidationError (js ''Refresh token is required for refresh_token grant''))
          else
            andThen (validateRefreshToken (the (req_refresh_token request))) (\<lambda>t. Inr (Some t))
        else Inr None) (\<lambda>vrefresh.
       Inr \<lparr>req_grant_type = grant, req_client_id = cid, req_client_secret = secret,
            req_username = vuser, req_password = vpass, req_refresh_token = vrefresh,
            req_scope = vscope\<rparr>))))))"

text \<open>
  The network.  \<open>net k\<close> is the outcome of the HTTP exchange with 0-based index \<open>k\<close> among
  all exchanges the client starts: a response, or a failure.  The log \<open>reqs\<close> lists the requests
  sent so far by method and URL, one entry per exchange, so its length is the index of the
  next exchange.
\<close>

record http_request =
  http_method :: jsstring
  http_url :: jsstring

type_synonym network = "nat \<Rightarrow> axios_error + axios_response"

text \<open>
  \<open>makeRequest\<close>: the request goes through \<open>Utils.retry\<close>; a failure reaches the retry loop
  as the error that the response interceptor makes of it with \<open>handleError\<close>.  What is
  thrown is an error or, from a retry loop that never ran, \<open>undefined\<close> (\<open>None\<close>).
\<close>

definition oauthMakeRequest ::
  "network \<Rightarrow> OAuth2Client \<Rightarrow> http_request list \<Rightarrow> jsstring \<Rightarrow> jsstring
     \<Rightarrow> (error option + axios_response) \<times> http_request list" where
  "oauthMakeRequest net c reqs method endpoint =
     (let run = retry (\<lambda>i. case net (length reqs + i) of
                              Inl failure \<Rightarrow> Inl (oauthHandleError failure)
                            | Inr resp \<Rightarrow> Inr resp)
                  (retryOptions c)
      in (outcome run,
          reqs @ replicate (calls run) \<lparr>http_method = method, http_url = endpoint\<rparr>))"

definition parseTokenResponse :: "axios_response \<Rightarrow> int \<Rightarrow> error + OAuth2TokenResponse" where
  "parseTokenResponse resp now =
     (case data resp of
        None \<Rightarrow> Inl (NativeTypeError (js ''Cannot read properties of undefined''))
      | Some d \<Rightarrow>
          if truthyStr (data_error d) then
            Inl (AuthenticationError
                   (orElse (data_error_description d)
                      (orElse (data_error d) (js ''OAuth token request failed''))))
          else if \<not> truthyStr (data_access_token d) then
            Inl (APIError (js ''Invalid token response: missing access_token'') None None False)
          else
            Inr \<lparr>resp_access_token = the (data_access_token d),
                 resp_token_type = orElse (data_token_type d) (js ''Bearer''),
                 resp_expires_in = (if truthyNum (data_expires_in d) then the (data_expires_in d) else 3600),
                 resp_refresh_token = data_refresh_token d,
                 resp_scope = data_scope d,
                 resp_created_at = (if truthyNum (data_created_at d) then the (data_created_at d) else now)\<rparr>)"

text \<open>
  \<open>requestToken\<close>; \<open>now\<close> is the clock reading inside \<open>parseTokenResponse\<close>.  The result
  comes with the log of requests sent.
\<close>

definition requestToken ::
  "network \<Rightarrow> OAuth2Client \<Rightarrow> http_request list \<Rightarrow> OAuth2TokenRequest \<Rightarrow> int
     \<Rightarrow> (error option + OAuth2TokenResponse) \<times> http_request list" where
  "requestToken net c reqs request now =
     (case validateTokenRequest request of
        Inl e \<Rightarrow> (Inl (Some e), reqs)
      | Inr validatedRequest \<Rightarrow>
          (case oauthMakeRequest net c reqs (js ''POST'') (js ''/oauth/token'') of
             (Inl thrown, reqs') \<Rightarrow> (Inl thrown, reqs')
           | (Inr resp, reqs') \<Rightarrow>
               (case parseTokenResponse resp now of
                  Inl e \<Rightarrow> (Inl (Some e), reqs')
                | Inr tokenResponse \<Rightarrow> (Inr tokenResponse, reqs'))))"

subsection \<open>Token lifecycle\<close>

text \<open>
  Each operation returns what it returns or throws, the client afterwards and the log
  afterwards.  The clock is read up to three times: in the expiry check (\<open>nowCheck\<close>),
  in \<open>parseTokenResponse\<close> (\<open>nowParse\<close>) and when the token is stored (\<open>nowStore\<close>).
\<close>

definition clientCredentialsRequest :: "OAuth2Client \<Rightarrow> OAuth2TokenRequest" where
  "clientCredentialsRequest c =
     \<lparr>req_grant_type = js ''client_credentials'', req_client_id = clientId c,
      req_client_secret = clientSecret c, req_username = None, req_password = None,
      req_refresh_token = None, req_scope = None\<rparr>"

definition getAccessToken ::
  "network \<Rightarrow> OAuth2Client \<Rightarrow> http_request list \<Rightarrow> int \<Rightarrow> int \<Rightarrow> int
     \<Rightarrow> (error option + jsstring) \<times> OAuth2Client \<times> http_request list" where
  "getAccessToken net c reqs nowCheck nowParse nowStore =
     (if tokenInfo c \<noteq> None \<and> \<not> isTokenExpired c nowCheck then
        (Inr (access_token (the (tokenInfo c))), c, reqs)
      else
        (case requestToken net c reqs (clientCredentialsRequest c) nowParse of
           (Inl thrown, reqs') \<Rightarrow> (Inl thrown, c, reqs')
         | (Inr tokenResponse, reqs') \<Rightarrow>
             (Inr (resp_access_token tokenResponse),
              c\<lparr>tokenInfo := Some
                  \<lparr>access_token = resp_access_token tokenResponse,
                   token_type = resp_token_type tokenResponse,
                   expires_at = nowStore + resp_expires_in tokenResponse * 1000,
                   scope = resp_scope tokenResponse,
                   refresh_token = resp_refresh_token tokenResponse,
                   isExpired = False\<rparr>\<rparr>,
              reqs')))"

text \<open>\<open>this.tokenInfo?.refresh_token\<close> and \<open>this.tokenInfo?.access_token\<close>.\<close>

definition storedRefreshToken :: "OAuth2Client \<Rightarrow> jsstring option" where
  "storedRefreshToken c = (case tokenInfo c of None \<Rightarrow> None | Some ti \<Rightarrow> refresh_token ti)"


definition refreshToken ::
  "network \<Rightarrow> OAuth2Client \<Rightarrow> http_request list \<Rightarrow> int \<Rightarrow> int
     \<Rightarrow> (error option + OAuth2TokenResponse) \<times> OAuth2Client \<times> http_request list" where
  "refreshToken net c reqs nowParse nowStore =
     (if \<not> truthyStr (storedRefreshToken c) then
        (Inl (Some (ValidationError (js ''No refresh token available''))), c, reqs)
      else
        (case requestToken net c reqs
                ((clientCredentialsRequest c)
                   \<lparr>req_grant_type := js ''refresh_token'',
                    req_refresh_token := storedRefreshToken c\<rparr>) nowParse of
           (Inl thrown, reqs') \<Rightarrow> (Inl thrown, c, reqs')
         | (Inr tokenResponse, reqs') \<Rightarrow>
             (Inr tokenResponse,
              c\<lparr>tokenInfo := Some
                  \<lparr>access_token = resp_access_token tokenResponse,
                   token_type = resp_token_type tokenResponse,
                   expires_at = nowStore + resp_expires_in tokenResponse * 1000,
                   scope = resp_scope tokenResponse,
                   refresh_token =
                     (if truthyStr (resp_refresh_token tokenResponse)
                      then resp_refresh_token tokenResponse else storedRefreshToken c),
                   isExpired = False\<rparr>\<rparr>,
              reqs')))"


subsection \<open>Example network and client\<close>

text \<open>
  Concrete inputs used below: a client with valid credentials and the default retry
  policy, a token endpoint answering \<open>{access_token: "tok-123", expires_in: 3600}\<close>, one
  answering \<open>{access_token: "tok-123"}\<close> only, a server that answers every request with
  status 200 and no body, and one that answers every request with status 400.
\<close>

definition exampleClient :: OAuth2Client where
  "exampleClient =
     \<lparr>clientId = js ''client-id-0001'', clientSecret = js ''client-secret-0001'',
      retryOptions = defaultRetryOptions, tokenInfo = None\<rparr>"


definition emptyData :: response_data where
  "emptyData =
     \<lparr>data_message = None, data_error = None, data_error_description = None,
      data_access_token = None, data_token_type = None, data_expires_in = None,
      data_refresh_token = None, data_scope = None, data_created_at = None\<rparr>"

definition tokenNet :: network where
  "tokenNet k =
     Inr \<lparr>status = 200,
          data = Some (emptyData\<lparr>data_access_token := Some (js ''tok-123''),
                                 data_expires_in := Some 3600\<rparr>)\<rparr>"

definition bareTokenNet :: network where
  "bareTokenNet k =
     Inr \<lparr>status = 200, data = Some (emptyData\<lparr>data_access_token := Some (js ''tok-123'')\<rparr>)\<rparr>"



definition exampleToken :: OAuth2TokenInfo where
  "exampleToken =
     \<lparr>access_token = js ''tok-123'', token_type = js ''Bearer'', expires_at = 3600000,
      scope = None, refresh_token = None, isExpired = False\<rparr>"

section \<open>Basic facts about strings\<close>

lemma js_simps: "js [] = []" "js (c # s) = of_char c # js s"
  by (simp_all add: js_def)

lemma length_js: "length (js s) = length s"
  by (simp add: js_def)

section \<open>Properties of the rate limiter\<close>


lemma isAllowed_fresh:
  "requests rl x = None \<Longrightarrow>
   isAllowed rl x now =
     (True, rl\<lparr>requests := (cleanup (requests rl) now)(x \<mapsto>
        \<lparr>count = 1, resetTime = now + windowMs (config rl), blockedUntil = None\<rparr>)\<rparr>)"
  by (simp add: isAllowed_def)

lemma isAllowed_increment:
  assumes "requests rl x = Some e" "blockedUntil e = None" "now < resetTime e"
    "count e < maxRequests (config rl)"
  shows "isAllowed rl x now =
     (True, rl\<lparr>requests := (cleanup (requests rl) now)(x \<mapsto> e\<lparr>count := count e + 1\<rparr>)\<rparr>)"
  using assms by (simp add: isAllowed_def isBlocked_def mutateEntry_def cleanup_def isStale_def)

lemma isAllowed_block:
  assumes "requests rl x = Some e" "blockedUntil e = None" "now < resetTime e"
    "maxRequests (config rl) \<le> count e"
  shows "isAllowed rl x now =
     (False, rl\<lparr>requests := (cleanup (requests rl) now)(x \<mapsto>
         e\<lparr>blockedUntil := Some (now + blockDurationMs (config rl))\<rparr>)\<rparr>)"
  using assms by (simp add: isAllowed_def isBlocked_def mutateEntry_def cleanup_def isStale_def)

lemma isAllowed_blocked:
  assumes "requests rl x = Some e" "blockedUntil e = Some b" "b \<noteq> 0" "now < b"
  shows "fst (isAllowed rl x now) = False"
    and "requests (snd (isAllowed rl x now)) x = Some e"
    and "config (snd (isAllowed rl x now)) = config rl"
  using assms by (simp_all add: isAllowed_def isBlocked_def cleanup_def isStale_def)

lemma blocked_calls:
  assumes "requests rl x = Some e" "blockedUntil e = Some b"
    and "\<forall>t\<in>set ts. 0 \<le> t \<and> t < b"
  shows "fst (isAllowedCalls rl x ts) = replicate (length ts) False
       \<and> requests (snd (isAllowedCalls rl x ts)) x = Some e"
  using assms
proof (induction ts arbitrary: rl)
  case Nil
  then show ?case by simp
next
  case (Cons t ts)
  from Cons.prems have t: "0 \<le> t" "t < b" by simp_all
  then have b0: "b \<noteq> 0" by linarith
  obtain ok rl' where step: "isAllowed rl x t = (ok, rl')" by (cases "isAllowed rl x t")
  from isAllowed_blocked[OF Cons.prems(1,2) b0 t(2)] step
  have ok: "ok = False" and rl': "requests rl' x = Some e" by simp_all
  from Cons.IH[OF rl' Cons.prems(2)] Cons.prems(3)
  have "fst (isAllowedCalls rl' x ts) = replicate (length ts) False
       \<and> requests (snd (isAllowedCalls rl' x ts)) x = Some e" by simp
  with step ok show ?case by (simp add: split_beta)
qed

text \<open>
  Claim C2.  With \<open>maxRequests = 3\<close> and \<open>windowMs = 60000\<close>, on an identifier without an
  entry (in particular on an empty map), four \<open>isAllowed\<close> calls whose clock readings
  \<open>t2\<close>, \<open>t3\<close>, \<open>t4\<close> lie before the end \<open>t1 + 60000\<close> of the window opened by the first
  answer true, true, true, false.  After the third call the count is 3 and no block is
  set; the fourth call leaves the count at 3 and sets
  \<open>blockedUntil = t4 + blockDurationMs\<close>.  Every later run of \<open>isAllowed\<close> calls on the
  identifier at (non-negative) clock readings before \<open>blockedUntil\<close> answers false
  throughout.
\<close>

theorem C2_rate_limiter_block:
  assumes cfg: "maxRequests (config rl) = 3" "windowMs (config rl) = 60000"
    and fresh: "requests rl x = None"
    and win: "t2 < t1 + 60000" "t3 < t1 + 60000" "t4 < t1 + 60000"
  shows "fst (isAllowedCalls rl x [t1, t2, t3, t4]) = [True, True, True, False]
       \<and> requests (snd (isAllowedCalls rl x [t1, t2, t3])) x =
           Some \<lparr>count = 3, resetTime = t1 + 60000, blockedUntil = None\<rparr>
       \<and> requests (snd (isAllowedCalls rl x [t1, t2, t3, t4])) x =
           Some \<lparr>count = 3, resetTime = t1 + 60000,
                 blockedUntil = Some (t4 + blockDurationMs (config rl))\<rparr>
       \<and> ((\<forall>t\<in>set ts. 0 \<le> t \<and> t < t4 + blockDurationMs (config rl)) \<longrightarrow>
            fst (isAllowedCalls (snd (isAllowedCalls rl x [t1, t2, t3, t4])) x ts)
              = replicate (length ts) False)"
proof -
  define e1 where "e1 = \<lparr>count = 1, resetTime = t1 + 60000, blockedUntil = None\<rparr>"
  define r1 where "r1 = rl\<lparr>requests := (cleanup (requests rl) t1)(x \<mapsto> e1)\<rparr>"
  have s1: "isAllowed rl x t1 = (True, r1)"
    using isAllowed_fresh[OF fresh, of t1] cfg by (simp add: r1_def e1_def)
  define e2 where "e2 = e1\<lparr>count := 2\<rparr>"
  define r2 where "r2 = r1\<lparr>requests := (cleanup (requests r1) t2)(x \<mapsto> e2)\<rparr>"
  have s2: "isAllowed r1 x t2 = (True, r2)"
    using isAllowed_increment[of r1 x e1 t2] cfg win
    by (simp add: r1_def r2_def e1_def e2_def)
  define e3 where "e3 = e1\<lparr>count := 3\<rparr>"
  define r3 where "r3 = r2\<lparr>requests := (cleanup (requests r2) t3)(x \<mapsto> e3)\<rparr>"
  have s3: "isAllowed r2 x t3 = (True, r3)"
    using isAllowed_increment[of r2 x e2 t3] cfg win
    by (simp add: r1_def r2_def r3_def e1_def e2_def e3_def)
  define e4 where "e4 = e3\<lparr>blockedUntil := Some (t4 + blockDurationMs (config rl))\<rparr>"
  define r4 where "r4 = r3\<lparr>requests := (cleanup (requests r3) t4)(x \<mapsto> e4)\<rparr>"
  have s4: "isAllowed r3 x t4 = (False, r4)"
    using isAllowed_block[of r3 x e3 t4] cfg win
    by (simp add: r1_def r2_def r3_def r4_def e1_def e3_def e4_def)
  have run3: "isAllowedCalls rl x [t1, t2, t3] = ([True, True, True], r3)"
    by (simp add: s1 s2 s3)
  have run4: "isAllowedCalls rl x [t1, t2, t3, t4] = ([True, True, True, False], r4)"
    by (simp add: s1 s2 s3 s4)
  have q3: "requests r3 x = Some e3" by (simp add: r3_def)
  have q4: "requests r4 x = Some e4" by (simp add: r4_def)
  have b4: "blockedUntil e4 = Some (t4 + blockDurationMs (config rl))" by (simp add: e4_def)
  have later: "(\<forall>t\<in>set ts. 0 \<le> t \<and> t < t4 + blockDurationMs (config rl)) \<longrightarrow>
            fst (isAllowedCalls r4 x ts) = replicate (length ts) False"
    using blocked_calls[OF q4 b4] by blast
  show ?thesis
    unfolding run4 run3 using later by (simp add: q3 q4 e3_def e4_def e1_def)
qed

text \<open>
  The theorem at the limiter \<open>{maxRequests: 3, windowMs: 60000, blockDurationMs: 300000}\<close>
  with calls at 1000, 2000, 3000, 4000 and then at 5000 and 303999 (the block ends at
  304000).
\<close>

theorem C2_rate_limiter_block_witness:
  "fst (isAllowedCalls (newRateLimiter \<lparr>maxRequests = 3, windowMs = 60000, blockDurationMs = 300000\<rparr>)
         ''x'' [1000, 2000, 3000, 4000]) = [True, True, True, False]
   \<and> fst (isAllowedCalls (snd (isAllowedCalls
         (newRateLimiter \<lparr>maxRequests = 3, windowMs = 60000, blockDurationMs = 300000\<rparr>)
         ''x'' [1000, 2000, 3000, 4000])) ''x'' [5000, 303999]) = [False, False]"
  using C2_rate_limiter_block [of "newRateLimiter \<lparr>maxRequests = 3, windowMs = 60000, blockDurationMs = 300000\<rparr>"
      "''x''" 2000 1000 3000 4000 "[5000, 303999]"]
  by (simp add: newRateLimiter_def)

text \<open>
  Claim C9.  \<open>reset(k)\<close> deletes the entry of \<open>k\<close> and changes neither the configuration
  nor the entry of any other identifier.  The \<open>isAllowed(k)\<close> call that follows answers
  true, at any clock reading and whatever the deleted entry was (a block still in the
  future included), and opens a fresh window with count 1 and no block.  \<open>isAllowed\<close>
  itself removes an entry only through the lazy cleanup: an identifier that had an
  entry before a call and has none after it had a stale entry (window over, block absent
  or over).  The two read-only operations return numbers and have no limiter to return.
\<close>

theorem C9_reset_removes_entry:
  "requests (reset rl k) k = None
   \<and> config (reset rl k) = config rl
   \<and> (\<forall>k'. k' \<noteq> k \<longrightarrow> requests (reset rl k) k' = requests rl k')
   \<and> fst (isAllowed (reset rl k) k now) = True
   \<and> requests (snd (isAllowed (reset rl k) k now)) k =
        Some \<lparr>count = 1, resetTime = now + windowMs (config rl), blockedUntil = None\<rparr>
   \<and> (\<forall>k' e. requests rl k' = Some e \<and> requests (snd (isAllowed rl i now)) k' = None
          \<longrightarrow> isStale e now)"
proof -
  have rm: "\<forall>k' e. requests rl k' = Some e \<and> requests (snd (isAllowed rl i now)) k' = None
          \<longrightarrow> isStale e now"
    by (auto simp: isAllowed_def Let_def cleanup_def mutateEntry_def
             split: option.splits if_splits)
  show ?thesis
    using rm by (simp add: reset_def isAllowed_def)
qed

text \<open>
  The theorem at a limiter where \<open>x\<close> is blocked until 304000 and \<open>y\<close> has a stale entry,
  at clock reading 5000: \<open>x\<close> is refused before the reset and admitted after it, the
  reset leaves \<open>y\<close> alone, and the cleanup of an \<open>isAllowed\<close> call removes \<open>y\<close>.
\<close>

theorem C9_reset_removes_entry_witness:
  "isBlocked \<lparr>count = 3, resetTime = 61000, blockedUntil = Some 304000\<rparr> 5000
   \<and> fst (isAllowed \<lparr>requests = [''x'' \<mapsto> \<lparr>count = 3, resetTime = 61000, blockedUntil = Some 304000\<rparr>,
                                   ''y'' \<mapsto> \<lparr>count = 1, resetTime = 100, blockedUntil = None\<rparr>],
                      config = defaultRateLimitConfig\<rparr> ''x'' 5000) = False
   \<and> fst (isAllowed (reset \<lparr>requests = [''x'' \<mapsto> \<lparr>count = 3, resetTime = 61000, blockedUntil = Some 304000\<rparr>,
                                   ''y'' \<mapsto> \<lparr>count = 1, resetTime = 100, blockedUntil = None\<rparr>],
                      config = defaultRateLimitConfig\<rparr> ''x'') ''x'' 5000) = True
   \<and> requests (reset \<lparr>requests = [''x'' \<mapsto> \<lparr>count = 3, resetTime = 61000, blockedUntil = Some 304000\<rparr>,
                                   ''y'' \<mapsto> \<lparr>count = 1, resetTime = 100, blockedUntil = None\<rparr>],
                      config = defaultRateLimitConfig\<rparr> ''x'') ''y''
        = Some \<lparr>count = 1, resetTime = 100, blockedUntil = None\<rparr>
   \<and> requests (snd (isAllowed \<lparr>requests = [''x'' \<mapsto> \<lparr>count = 3, resetTime = 61000, blockedUntil = Some 304000\<rparr>,
                                   ''y'' \<mapsto> \<lparr>count = 1, resetTime = 100, blockedUntil = None\<rparr>],
                      config = defaultRateLimitConfig\<rparr> ''x'' 5000)) ''y'' = None
   \<and> isStale \<lparr>count = 1, resetTime = 100, blockedUntil = None\<rparr> 5000"
  using C9_reset_removes_entry [of
      "\<lparr>requests = [''x'' \<mapsto> \<lparr>count = 3, resetTime = 61000, blockedUntil = Some 304000\<rparr>,
                     ''y'' \<mapsto> \<lparr>count = 1, resetTime = 100, blockedUntil = None\<rparr>],
        config = defaultRateLimitConfig\<rparr>" "''x''" 5000 "''x''"]
  by (simp add: isAllowed_def isBlocked_def isStale_def cleanup_def reset_def)

section \<open>Properties of the retry loop\<close>

text \<open>
  One iteration, case by case: the loop condition fails; the operation returns; the
  operation throws on the last allowed attempt or throws a non-retryable error; the
  operation throws and the loop sleeps and goes on.
\<close>

lemma retry_loop_exit:
  "\<not> real attempt \<le> maxRetries options \<Longrightarrow>
   retry_loop fn options attempt lastError slept =
     \<lparr>outcome = Inl lastError, calls = attempt, sleeps = slept\<rparr>"
  by (subst retry_loop.simps) simp

lemma retry_loop_return:
  "real attempt \<le> maxRetries options \<Longrightarrow> fn attempt = Inr v \<Longrightarrow>
   retry_loop fn options attempt lastError slept =
     \<lparr>outcome = Inr v, calls = attempt + 1, sleeps = slept\<rparr>"
  by (subst retry_loop.simps) simp

lemma retry_loop_throw:
  "real attempt \<le> maxRetries options \<Longrightarrow> fn attempt = Inl err \<Longrightarrow>
   real attempt = maxRetries options \<or> isRetryable err = Some False \<Longrightarrow>
   retry_loop fn options attempt lastError slept =
     \<lparr>outcome = Inl (Some err), calls = attempt + 1, sleeps = slept\<rparr>"
  by (subst retry_loop.simps) auto

lemma retry_loop_again:
  "real attempt \<le> maxRetries options \<Longrightarrow> fn attempt = Inl err \<Longrightarrow>
   real attempt \<noteq> maxRetries options \<Longrightarrow> isRetryable err \<noteq> Some False \<Longrightarrow>
   retry_loop fn options attempt lastError slept =
     retry_loop fn options (attempt + 1) (Some err) (slept @ [backoffDelay options attempt])"
  by (subst retry_loop.simps) simp


text \<open>
  The loop from \<open>attempt\<close> on, when \<open>attempt\<close> is still allowed: the invocations it adds
  are those with the indices \<open>attempt, ..., calls - 1\<close>, and it sleeps after each of them
  but the last.  It sleeps after the last one too when \<open>maxRetries\<close> is fractional and the
  last invocation failed with an error not marked non-retryable: then the loop ends
  through its condition, and throws that last error.
\<close>

lemma retry_loop_spec:
  assumes "real attempt \<le> maxRetries options"
  shows "attempt < calls (retry_loop fn options attempt lastError slept)
    \<and> int (calls (retry_loop fn options attempt lastError slept)) \<le> \<lfloor>maxRetries options\<rfloor> + 1
    \<and> sleeps (retry_loop fn options attempt lastError slept) =
        slept @ map (backoffDelay options)
          [attempt ..<
             (if of_int \<lfloor>maxRetries options\<rfloor> \<noteq> maxRetries options
                 \<and> (case fn (calls (retry_loop fn options attempt lastError slept) - 1) of
                      Inl e \<Rightarrow> isRetryable e \<noteq> Some False | Inr v \<Rightarrow> False)
              then calls (retry_loop fn options attempt lastError slept)
              else calls (retry_loop fn options attempt lastError slept) - 1)]
    \<and> (\<forall>i. attempt \<le> i \<and> i < calls (retry_loop fn options attempt lastError slept) - 1 \<longrightarrow>
           (\<exists>e. fn i = Inl e \<and> isRetryable e \<noteq> Some False))
    \<and> outcome (retry_loop fn options attempt lastError slept) =
        (case fn (calls (retry_loop fn options attempt lastError slept) - 1) of
           Inr v \<Rightarrow> Inr v | Inl e \<Rightarrow> Inl (Some e))
    \<and> (\<forall>e. fn (calls (retry_loop fn options attempt lastError slept) - 1) = Inl e
            \<and> isRetryable e \<noteq> Some False \<longrightarrow>
          int (calls (retry_loop fn options attempt lastError slept)) = \<lfloor>maxRetries options\<rfloor> + 1)"
  using assms
proof (induction fn options attempt lastError slept rule: retry_loop.induct)
  case (1 fn options attempt lastError slept)
  from "1.prems" have fl: "int attempt \<le> \<lfloor>maxRetries options\<rfloor>"
    by (simp add: le_floor_iff)
  show ?case
  proof (cases "fn attempt")
    case (Inr v)
    with "1.prems" fl show ?thesis
      by (auto simp add: retry_loop_return)
  next
    case (Inl err)
    show ?thesis
    proof (cases "real attempt = maxRetries options \<or> isRetryable err = Some False")
      case True
      with Inl "1.prems" have eq: "retry_loop fn options attempt lastError slept =
          \<lparr>outcome = Inl (Some err), calls = attempt + 1, sleeps = slept\<rparr>"
        by (intro retry_loop_throw) auto
      have whole: "real attempt = maxRetries options \<Longrightarrow>
          of_int \<lfloor>maxRetries options\<rfloor> = maxRetries options
          \<and> \<lfloor>maxRetries options\<rfloor> = int attempt"
      proof -
        assume a: "real attempt = maxRetries options"
        then have "maxRetries options = of_int (int attempt)" by simp
        then have "\<lfloor>maxRetries options\<rfloor> = int attempt" by (simp only: floor_of_int)
        with a show ?thesis by simp
      qed
      show ?thesis
        unfolding eq using Inl True fl whole by auto
    next
      case False
      then have ne: "real attempt \<noteq> maxRetries options" and rt: "isRetryable err \<noteq> Some False"
        by simp_all
      let ?r = "retry_loop fn options (attempt + 1) (Some err)
                 (slept @ [backoffDelay options attempt])"
      have eq: "retry_loop fn options attempt lastError slept = ?r"
        using Inl ne rt "1.prems" by (rule retry_loop_again[rotated 1])
      show ?thesis
      proof (cases "real (attempt + 1) \<le> maxRetries options")
        case le: True
        note IH = "1.IH"[OF "1.prems" Inl ne rt le]
        from IH have c: "attempt + 1 < calls ?r" by simp
        let ?n = "if of_int \<lfloor>maxRetries options\<rfloor> \<noteq> maxRetries options
                 \<and> (case fn (calls ?r - 1) of
                      Inl e \<Rightarrow> isRetryable e \<noteq> Some False | Inr v \<Rightarrow> False)
              then calls ?r else calls ?r - 1"
        have n1: "attempt < calls ?r - 1" using c by linarith
        have n2: "attempt < calls ?r" using c by linarith
        have n: "attempt < ?n" using n1 n2 by (rule_tac if_split[THEN iffD2]) blast
        have upt: "[attempt ..< ?n] = attempt # [attempt + 1 ..< ?n]"
          using n by (simp only: upt_conv_Cons Suc_eq_plus1)
        have sl: "sleeps ?r = slept @ map (backoffDelay options) [attempt ..< ?n]"
        proof -
          from IH have "sleeps ?r = (slept @ [backoffDelay options attempt])
                          @ map (backoffDelay options) [attempt + 1 ..< ?n]"
            by blast
          then show ?thesis unfolding upt by simp
        qed
        have all: "\<forall>i. attempt \<le> i \<and> i < calls ?r - 1 \<longrightarrow>
             (\<exists>e. fn i = Inl e \<and> isRetryable e \<noteq> Some False)"
        proof (intro allI impI)
          fix i assume i: "attempt \<le> i \<and> i < calls ?r - 1"
          show "\<exists>e. fn i = Inl e \<and> isRetryable e \<noteq> Some False"
          proof (cases "i = attempt")
            case True
            with Inl rt show ?thesis by simp
          next
            case False
            with i have "attempt + 1 \<le> i \<and> i < calls ?r - 1" by simp
            with IH show ?thesis by blast
          qed
        qed
        have c1: "attempt < calls ?r" using c by simp
        have c2: "int (calls ?r) \<le> \<lfloor>maxRetries options\<rfloor> + 1" using IH by blast
        have c5: "outcome ?r =
            (case fn (calls ?r - 1) of Inr v \<Rightarrow> Inr v | Inl e \<Rightarrow> Inl (Some e))"
          using IH by blast
        have c6: "\<forall>e. fn (calls ?r - 1) = Inl e \<and> isRetryable e \<noteq> Some False \<longrightarrow>
            int (calls ?r) = \<lfloor>maxRetries options\<rfloor> + 1"
          using IH by blast
        show ?thesis
          unfolding eq using c1 c2 sl all c5 c6 by blast
      next
        case gt: False
        have r: "?r = \<lparr>outcome = Inl (Some err), calls = attempt + 1,
                       sleeps = slept @ [backoffDelay options attempt]\<rparr>"
          using gt by (rule retry_loop_exit)
        have lt: "maxRetries options < real attempt + 1" using gt by simp
        have f: "\<lfloor>maxRetries options\<rfloor> = int attempt"
        proof -
          have "maxRetries options < of_int (int attempt + 1)" using lt by simp
          then have "\<lfloor>maxRetries options\<rfloor> < int attempt + 1"
            by (simp only: floor_less_iff)
          with fl show ?thesis by linarith
        qed
        have frac: "of_int \<lfloor>maxRetries options\<rfloor> \<noteq> maxRetries options"
          using f ne by simp
        show ?thesis
          unfolding eq r using Inl rt f frac by auto
      qed
    qed
  qed
qed

text \<open>
  The delay at the default policy and at a policy whose powers leave the range of exact
  whole numbers: \<open>3 ^ 33\<close> is below \<open>2 ^ 53\<close> and is the delay slept; \<open>3 ^ 34\<close> is above, and
  the model does not say which double is slept.
\<close>

lemma backoffDelay_examples:
  "backoffDelay defaultRetryOptions 2 = Some 4000
   \<and> backoffDelay \<lparr>maxRetries = 35, retryDelay = 1, backoffMultiplier = 3\<rparr> 33
        = Some 5559060566555523
   \<and> backoffDelay \<lparr>maxRetries = 35, retryDelay = 1, backoffMultiplier = 3\<rparr> 34 = None
   \<and> backoffDelay \<lparr>maxRetries = 3, retryDelay = 1 / 2, backoffMultiplier = 2\<rparr> 0 = None"
  by (simp add: backoffDelay_def exactInteger_def defaultRetryOptions_def)

text \<open>
  Claim C1 as stated bounds the number of invocations by the policy's attempt number.
  The loop runs \<open>attempt = 0, ..., maxRetries\<close>: under \<open>maxRetries = 3\<close> an operation
  that keeps failing with a retryable error is invoked four times.
\<close>

theorem C1_retry_counterexample:
  "calls (retry failingOperation
            \<lparr>maxRetries = 3, retryDelay = 1000, backoffMultiplier = 2\<rparr>) = 4
   \<and> \<not> calls (retry failingOperation
            \<lparr>maxRetries = 3, retryDelay = 1000, backoffMultiplier = 2\<rparr>) \<le> 3"
  by (simp add: retry_def retry_loop.simps failingOperation_def NetworkError_def)

text \<open>
  Claim C1, amended.  For every operation and every policy with
  \<open>0 \<le> maxRetries \<le> 2 ^ 53\<close>, whole or fractional, the operation is invoked at least once
  and at most \<open>\<lfloor>maxRetries\<rfloor> + 1\<close> times (one first attempt and at most \<open>\<lfloor>maxRetries\<rfloor>\<close>
  retries).  Every invocation but the last failed with an error whose \<open>isRetryable\<close> is not
  \<open>false\<close>, and after the failed invocation with index \<open>i\<close> the loop called \<open>sleep\<close> with
  the delay of index \<open>i\<close> before the next one; there is no other sleep, except one after
  the last invocation when \<open>maxRetries\<close> is fractional and the attempts are exhausted.  The delay of
  index \<open>i\<close> is \<open>retryDelay * backoffMultiplier ^ i\<close> whenever \<open>retryDelay\<close>,
  \<open>backoffMultiplier\<close>, the power and the product are whole numbers of magnitude at most
  \<open>2 ^ 53\<close>.  The run ends with the result of the last invocation: its value is returned,
  its error is thrown unchanged; and if that last error was not marked non-retryable, the
  attempts were exhausted (\<open>\<lfloor>maxRetries\<rfloor> + 1\<close> invocations).  An operation whose first
  error is marked non-retryable is invoked exactly once and that error is thrown.
\<close>

theorem C1_retry_attempts:
  assumes "0 \<le> maxRetries options" and "maxRetries options \<le> 2 ^ 53"
  shows "1 \<le> calls (retry fn options)
    \<and> int (calls (retry fn options)) \<le> \<lfloor>maxRetries options\<rfloor> + 1
    \<and> (\<forall>i. i < calls (retry fn options) - 1 \<longrightarrow>
           (\<exists>e. fn i = Inl e \<and> isRetryable e \<noteq> Some False))
    \<and> sleeps (retry fn options) =
         map (backoffDelay options) [0 ..< length (sleeps (retry fn options))]
    \<and> length (sleeps (retry fn options)) =
         (if of_int \<lfloor>maxRetries options\<rfloor> \<noteq> maxRetries options
             \<and> (case fn (calls (retry fn options) - 1) of
                  Inl e \<Rightarrow> isRetryable e \<noteq> Some False | Inr v \<Rightarrow> False)
          then calls (retry fn options) else calls (retry fn options) - 1)
    \<and> (\<forall>i. i < length (sleeps (retry fn options))
            \<and> exactInteger (retryDelay options) \<and> exactInteger (backoffMultiplier options)
            \<and> exactInteger (backoffMultiplier options ^ i)
            \<and> exactInteger (retryDelay options * backoffMultiplier options ^ i) \<longrightarrow>
           sleeps (retry fn options) ! i = Some (retryDelay options * backoffMultiplier options ^ i))
    \<and> outcome (retry fn options) =
         (case fn (calls (retry fn options) - 1) of Inr v \<Rightarrow> Inr v | Inl e \<Rightarrow> Inl (Some e))
    \<and> (\<forall>e. fn (calls (retry fn options) - 1) = Inl e \<and> isRetryable e \<noteq> Some False \<longrightarrow>
           int (calls (retry fn options)) = \<lfloor>maxRetries options\<rfloor> + 1)
    \<and> (\<forall>e. fn 0 = Inl e \<and> isRetryable e = Some False \<longrightarrow>
           calls (retry fn options) = 1 \<and> outcome (retry fn options) = Inl (Some e))"
proof -
  let ?r = "retry fn options"
  let ?n = "if of_int \<lfloor>maxRetries options\<rfloor> \<noteq> maxRetries options
             \<and> (case fn (calls ?r - 1) of
                  Inl e \<Rightarrow> isRetryable e \<noteq> Some False | Inr v \<Rightarrow> False)
          then calls ?r else calls ?r - 1"
  have a: "real 0 \<le> maxRetries options" using assms by simp
  note spec = retry_loop_spec[OF a, of fn None "[]", folded retry_def]
  have p1: "1 \<le> calls ?r" using spec by simp
  have p2: "int (calls ?r) \<le> \<lfloor>maxRetries options\<rfloor> + 1" using spec by blast
  have p3: "\<forall>i. i < calls ?r - 1 \<longrightarrow> (\<exists>e. fn i = Inl e \<and> isRetryable e \<noteq> Some False)"
    using spec by simp
  have sl: "sleeps ?r = map (backoffDelay options) [0 ..< ?n]"
  proof -
    from spec have "sleeps ?r = [] @ map (backoffDelay options) [0 ..< ?n]" by blast
    then show ?thesis by simp
  qed
  have p5: "length (sleeps ?r) = ?n"
  proof -
    have "length (sleeps ?r) = length (map (backoffDelay options) [0 ..< ?n])"
      by (rule arg_cong[OF sl])
    then show ?thesis by (simp only: length_map length_upt minus_nat.diff_0)
  qed
  have p4: "sleeps ?r = map (backoffDelay options) [0 ..< length (sleeps ?r)]"
    using sl unfolding p5 .
  have p6: "\<forall>i. i < length (sleeps ?r)
            \<and> exactInteger (retryDelay options) \<and> exactInteger (backoffMultiplier options)
            \<and> exactInteger (backoffMultiplier options ^ i)
            \<and> exactInteger (retryDelay options * backoffMultiplier options ^ i) \<longrightarrow>
           sleeps ?r ! i = Some (retryDelay options * backoffMultiplier options ^ i)"
  proof (intro allI impI)
    fix i
    assume h: "i < length (sleeps ?r)
            \<and> exactInteger (retryDelay options) \<and> exactInteger (backoffMultiplier options)
            \<and> exactInteger (backoffMultiplier options ^ i)
            \<and> exactInteger (retryDelay options * backoffMultiplier options ^ i)"
    have "sleeps ?r ! i = map (backoffDelay options) [0 ..< length (sleeps ?r)] ! i"
      using p4 by simp
    also have "\<dots> = backoffDelay options i" using h by simp
    also have "\<dots> = Some (retryDelay options * backoffMultiplier options ^ i)"
      using h by (simp add: backoffDelay_def)
    finally show "sleeps ?r ! i = Some (retryDelay options * backoffMultiplier options ^ i)" .
  qed
  have p7: "outcome ?r = (case fn (calls ?r - 1) of Inr v \<Rightarrow> Inr v | Inl e \<Rightarrow> Inl (Some e))"
    using spec by blast
  have p8: "\<forall>e. fn (calls ?r - 1) = Inl e \<and> isRetryable e \<noteq> Some False \<longrightarrow>
           int (calls ?r) = \<lfloor>maxRetries options\<rfloor> + 1"
    using spec by blast
  have p9: "\<forall>e. fn 0 = Inl e \<and> isRetryable e = Some False \<longrightarrow>
           calls ?r = 1 \<and> outcome ?r = Inl (Some e)"
  proof (intro allI impI)
    fix e assume e: "fn 0 = Inl e \<and> isRetryable e = Some False"
    have "\<not> 0 < calls ?r - 1"
    proof
      assume "0 < calls ?r - 1"
      with p3 obtain e' where "fn 0 = Inl e'" "isRetryable e' \<noteq> Some False" by blast
      with e show False by simp
    qed
    with p1 have c: "calls ?r = 1" by simp
    with p7 e show "calls ?r = 1 \<and> outcome ?r = Inl (Some e)" by simp
  qed
  show ?thesis using p1 p2 p3 p4 p5 p6 p7 p8 p9 by blast
qed

text \<open>
  The theorem at the default policy (\<open>maxRetries = 3\<close>, 1000 ms, factor 2): an operation
  failing twice with a network error and then returning 42 is invoked three times, with
  sleeps of 1000 and 2000 ms; an operation failing with a validation error is invoked
  once.  And at a policy with \<open>maxRetries = 1.5\<close>: an operation that keeps failing with a
  network error is invoked twice, the loop sleeps after both invocations, and the
  network error is thrown.
\<close>

theorem C1_retry_attempts_witness:
  "0 \<le> maxRetries defaultRetryOptions \<and> maxRetries defaultRetryOptions \<le> 2 ^ 53
   \<and> outcome (retry flakyOperation defaultRetryOptions) = Inr 42
   \<and> calls (retry flakyOperation defaultRetryOptions) = 3
   \<and> sleeps (retry flakyOperation defaultRetryOptions) = [Some 1000, Some 2000]
   \<and> calls (retry rejectedOperation defaultRetryOptions) = 1
   \<and> retry failingOperation \<lparr>maxRetries = 3 / 2, retryDelay = 1000, backoffMultiplier = 2\<rparr> =
       \<lparr>outcome = Inl (Some (NetworkError (js ''down''))), calls = 2,
        sleeps = [Some 1000, Some 2000]\<rparr>"
  using C1_retry_attempts [of defaultRetryOptions flakyOperation]
    C1_retry_attempts [of defaultRetryOptions rejectedOperation]
    C1_retry_attempts [of "\<lparr>maxRetries = 3 / 2, retryDelay = 1000, backoffMultiplier = 2\<rparr>"
      failingOperation]
  by (simp add: defaultRetryOptions_def retry_def retry_loop.simps flakyOperation_def
      rejectedOperation_def failingOperation_def NetworkError_def ValidationError_def
      backoffDelay_def exactInteger_def)

section \<open>Properties of the error mapping\<close>

text \<open>
  Claim C5.  \<open>handleError\<close> of the API client maps a failure that carries a response by
  its status: 401 to an authentication error (not retryable, status code 401), 402 to an
  insufficient-balance error (not retryable, 402), 429 to a quota-exceeded error
  (retryable, 429), and every other status to an API error that carries the status and is
  retryable exactly when the status is at least 500.  A failure without a response but
  with a request maps to a network error, which is retryable.
\<close>

theorem C5_error_mapping:
  "(\<forall>resp. err_response e = Some resp \<longrightarrow>
      (status resp = 401 \<longrightarrow>
         name (handleError e) = TalkSASAAuthenticationError
         \<and> isRetryable (handleError e) = Some False \<and> statusCode (handleError e) = Some 401)
    \<and> (status resp = 402 \<longrightarrow>
         name (handleError e) = TalkSASAInsufficientBalanceError
         \<and> isRetryable (handleError e) = Some False \<and> statusCode (handleError e) = Some 402)
    \<and> (status resp = 429 \<longrightarrow>
         name (handleError e) = TalkSASAQuotaExceededError
         \<and> isRetryable (handleError e) = Some True \<and> statusCode (handleError e) = Some 429)
    \<and> (status resp \<noteq> 401 \<and> status resp \<noteq> 402 \<and> status resp \<noteq> 429 \<longrightarrow>
         name (handleError e) = TalkSASAAPIError
         \<and> isRetryable (handleError e) = Some (500 \<le> status resp)
         \<and> statusCode (handleError e) = Some (status resp)))
   \<and> (err_response e = None \<and> err_request e \<longrightarrow>
         name (handleError e) = TalkSASANetworkError
         \<and> isRetryable (handleError e) = Some True)"
  by (auto simp: handleError_def Let_def AuthenticationError_def InsufficientBalanceError_def
        QuotaExceededError_def APIError_def createNetworkError_def NetworkError_def)

text \<open>
  The theorem at failures with the statuses 401, 402, 429, 503 and 404 and at a request
  that timed out.
\<close>

theorem C5_error_mapping_witness:
  "name (handleError (statusFailure 401)) = TalkSASAAuthenticationError
   \<and> isRetryable (handleError (statusFailure 401)) = Some False
   \<and> name (handleError (statusFailure 402)) = TalkSASAInsufficientBalanceError
   \<and> isRetryable (handleError (statusFailure 402)) = Some False
   \<and> name (handleError (statusFailure 429)) = TalkSASAQuotaExceededError
   \<and> isRetryable (handleError (statusFailure 429)) = Some True
   \<and> name (handleError (statusFailure 503)) = TalkSASAAPIError
   \<and> isRetryable (handleError (statusFailure 503)) = Some True
   \<and> name (handleError (statusFailure 404)) = TalkSASAAPIError
   \<and> isRetryable (handleError (statusFailure 404)) = Some False
   \<and> statusCode (handleError (statusFailure 404)) = Some 404
   \<and> name (handleError connectionFailure) = TalkSASANetworkError
   \<and> isRetryable (handleError connectionFailure) = Some True"
  using C5_error_mapping [of "statusFailure 401"] C5_error_mapping [of "statusFailure 402"]
    C5_error_mapping [of "statusFailure 429"] C5_error_mapping [of "statusFailure 503"]
    C5_error_mapping [of "statusFailure 404"] C5_error_mapping [of connectionFailure]
  by (simp add: statusFailure_def connectionFailure_def)

section \<open>Properties of the OAuth 2.0 client\<close>







text \<open>
  \<open>getAccessToken\<close> without a valid cached token, when the token request succeeds:
  the parsed response is stored with \<open>expires_at = Date.now() + expires_in * 1000\<close>.
\<close>

lemma getAccessToken_fresh:
  assumes "\<not> isTokenValid c nowCheck"
    and "requestToken net c reqs (clientCredentialsRequest c) nowParse = (Inr tr, reqs')"
  shows "getAccessToken net c reqs nowCheck nowParse nowStore =
     (Inr (resp_access_token tr),
      c\<lparr>tokenInfo := Some
          \<lparr>access_token = resp_access_token tr, token_type = resp_token_type tr,
           expires_at = nowStore + resp_expires_in tr * 1000, scope = resp_scope tr,
           refresh_token = resp_refresh_token tr, isExpired = False\<rparr>\<rparr>,
      reqs')"
  using assms by (auto simp: getAccessToken_def isTokenValid_def)

text \<open>
  Claim C3.  With a token stored, \<open>isTokenExpired\<close> holds exactly when
  \<open>now \<ge> expires_at - 5 minutes\<close>.  When \<open>getAccessToken\<close> acquires a token whose
  \<open>expires_in\<close> is 3600 and stores it at the instant \<open>issuedAt\<close>, \<open>isTokenValid\<close> is true
  at \<open>issuedAt\<close>, false at every instant from \<open>issuedAt + 3600000 - 300000\<close> on, and in
  particular false at \<open>issuedAt + 3600000 - 1\<close>.  \<open>refreshToken\<close> without a stored refresh
  token throws the validation error "No refresh token available" and leaves the client
  and the log of requests sent unchanged (no network call).
\<close>

theorem C3_token_expiry:
  "(\<forall>ti. tokenInfo c = Some ti \<longrightarrow>
        (isTokenExpired c now \<longleftrightarrow> expires_at ti - 5 * 60 * 1000 \<le> now))
   \<and> (\<forall>tr reqs'. \<not> isTokenValid c nowCheck
          \<and> requestToken net c reqs (clientCredentialsRequest c) nowParse = (Inr tr, reqs')
          \<and> resp_expires_in tr = 3600 \<longrightarrow>
        fst (getAccessToken net c reqs nowCheck nowParse issuedAt) = Inr (resp_access_token tr)
        \<and> isTokenValid (fst (snd (getAccessToken net c reqs nowCheck nowParse issuedAt))) issuedAt
        \<and> (\<forall>t. issuedAt + 3600000 - 300000 \<le> t \<longrightarrow>
              \<not> isTokenValid (fst (snd (getAccessToken net c reqs nowCheck nowParse issuedAt))) t)
        \<and> \<not> isTokenValid (fst (snd (getAccessToken net c reqs nowCheck nowParse issuedAt)))
              (issuedAt + 3600000 - 1))
   \<and> (\<not> truthyStr (storedRefreshToken c) \<longrightarrow>
        refreshToken net c reqs nowParse nowStore =
          (Inl (Some (ValidationError (js ''No refresh token available''))), c, reqs))"
proof (intro conjI allI impI)
  fix ti assume "tokenInfo c = Some ti"
  then show "isTokenExpired c now \<longleftrightarrow> expires_at ti - 5 * 60 * 1000 \<le> now"
    by (simp add: isTokenExpired_def)
next
  fix tr reqs'
  assume h: "\<not> isTokenValid c nowCheck
          \<and> requestToken net c reqs (clientCredentialsRequest c) nowParse = (Inr tr, reqs')
          \<and> resp_expires_in tr = 3600"
  then have g: "getAccessToken net c reqs nowCheck nowParse issuedAt =
     (Inr (resp_access_token tr),
      c\<lparr>tokenInfo := Some
          \<lparr>access_token = resp_access_token tr, token_type = resp_token_type tr,
           expires_at = issuedAt + 3600 * 1000, scope = resp_scope tr,
           refresh_token = resp_refresh_token tr, isExpired = False\<rparr>\<rparr>,
      reqs')"
    using getAccessToken_fresh[of c nowCheck net reqs nowParse tr reqs' issuedAt] by simp
  show "fst (getAccessToken net c reqs nowCheck nowParse issuedAt) = Inr (resp_access_token tr)"
    by (simp add: g)
  show "isTokenValid (fst (snd (getAccessToken net c reqs nowCheck nowParse issuedAt))) issuedAt"
    by (simp add: g isTokenValid_def isTokenExpired_def)
  show "\<not> isTokenValid (fst (snd (getAccessToken net c reqs nowCheck nowParse issuedAt)))
              (issuedAt + 3600000 - 1)"
    by (simp add: g isTokenValid_def isTokenExpired_def)
  fix t assume "issuedAt + 3600000 - 300000 \<le> t"
  then show "\<not> isTokenValid (fst (snd (getAccessToken net c reqs nowCheck nowParse issuedAt))) t"
    by (simp add: g isTokenValid_def isTokenExpired_def)
next
  assume "\<not> truthyStr (storedRefreshToken c)"
  then show "refreshToken net c reqs nowParse nowStore =
          (Inl (Some (ValidationError (js ''No refresh token available''))), c, reqs)"
    by (simp add: refreshToken_def)
qed

text \<open>The example client gets \<open>{access_token: "tok-123", expires_in: 3600}\<close> in one exchange.\<close>

lemma example_requestToken:
  "requestToken tokenNet exampleClient [] (clientCredentialsRequest exampleClient) 1000 =
     (Inr \<lparr>resp_access_token = js ''tok-123'', resp_token_type = js ''Bearer'',
           resp_expires_in = 3600, resp_refresh_token = None, resp_scope = None,
           resp_created_at = 1000\<rparr>,
      [\<lparr>http_method = js ''POST'', http_url = js ''/oauth/token''\<rparr>])"
  by (simp add: requestToken_def validateTokenRequest_def clientCredentialsRequest_def
      exampleClient_def andThen_def validateGrantType_def validGrantTypes_def
      validateClientId_def validateClientSecret_def trim_def isWhiteSpace_def truthyStr_def
      truthyNum_def js_simps oauthMakeRequest_def retry_def retry_loop.simps
      defaultRetryOptions_def tokenNet_def emptyData_def parseTokenResponse_def orElse_def Let_def)

text \<open>
  The theorem at the example client and the clock reading 1000, and, for the expiry test
  alone, at a stored token with \<open>expires_at = 3600000\<close> just before and at the start of the
  five-minute buffer.
\<close>

theorem C3_token_expiry_witness:
  "\<not> isTokenValid exampleClient 1000
   \<and> fst (getAccessToken tokenNet exampleClient [] 1000 1000 1000) = Inr (js ''tok-123'')
   \<and> isTokenValid (fst (snd (getAccessToken tokenNet exampleClient [] 1000 1000 1000))) 1000
   \<and> \<not> isTokenValid (fst (snd (getAccessToken tokenNet exampleClient [] 1000 1000 1000)))
         (1000 + 3600000 - 1)
   \<and> \<not> isTokenExpired (setTokenInfo exampleClient exampleToken) 3299999
   \<and> isTokenExpired (setTokenInfo exampleClient exampleToken) 3300000
   \<and> refreshToken tokenNet exampleClient [] 1000 1000 =
        (Inl (Some (ValidationError (js ''No refresh token available''))), exampleClient, [])"
proof -
  have nv: "\<not> isTokenValid exampleClient 1000"
    by (simp add: isTokenValid_def exampleClient_def)
  have nr: "\<not> truthyStr (storedRefreshToken exampleClient)"
    by (simp add: storedRefreshToken_def truthyStr_def exampleClient_def)
  have ti: "tokenInfo (setTokenInfo exampleClient exampleToken) = Some exampleToken"
    by (simp add: setTokenInfo_def)
  note fresh = C3_token_expiry [where c = exampleClient and now = 1000 and nowCheck = 1000
      and net = tokenNet and reqs = "[]" and nowParse = 1000 and issuedAt = 1000
      and nowStore = 1000]
  note before = C3_token_expiry [where c = "setTokenInfo exampleClient exampleToken"
      and now = 3299999 and nowCheck = 1000 and net = tokenNet and reqs = "[]"
      and nowParse = 1000 and issuedAt = 1000 and nowStore = 1000]
  note after = C3_token_expiry [where c = "setTokenInfo exampleClient exampleToken"
      and now = 3300000 and nowCheck = 1000 and net = tokenNet and reqs = "[]"
      and nowParse = 1000 and issuedAt = 1000 and nowStore = 1000]
  from fresh nv example_requestToken
  have a: "fst (getAccessToken tokenNet exampleClient [] 1000 1000 1000) = Inr (js ''tok-123'')
     \<and> isTokenValid (fst (snd (getAccessToken tokenNet exampleClient [] 1000 1000 1000))) 1000
     \<and> \<not> isTokenValid (fst (snd (getAccessToken tokenNet exampleClient [] 1000 1000 1000)))
         (1000 + 3600000 - 1)"
    by simp
  from before ti have b: "\<not> isTokenExpired (setTokenInfo exampleClient exampleToken) 3299999"
    by (simp add: exampleToken_def)
  from after ti have c: "isTokenExpired (setTokenInfo exampleClient exampleToken) 3300000"
    by (simp add: exampleToken_def)
  from fresh nr have d: "refreshToken tokenNet exampleClient [] 1000 1000 =
        (Inl (Some (ValidationError (js ''No refresh token available''))), exampleClient, [])"
    by simp
  from nv a b c d show ?thesis by simp
qed

text \<open>
  Claim C10.  For a response body without an \<open>error\<close> field and with a non-empty
  \<open>access_token\<close>, \<open>parseTokenResponse\<close> succeeds; \<open>token_type\<close> is "Bearer" when the body
  has none and \<open>expires_in\<close> is 3600 when the body has none.  For a body without an
  \<open>error\<close> field whose \<open>access_token\<close> is absent or empty it throws an API error, not an
  authentication error, with the message "Invalid token response: missing access_token".
  When \<open>getAccessToken\<close> has no valid token, its request passes validation and the
  token endpoint answers with a body without \<open>error\<close> and \<open>expires_in\<close> and with a non-empty
  \<open>access_token\<close>, the cached token gets \<open>expires_at = now + 3600 * 1000\<close>, \<open>now\<close> being
  the clock reading when the token is stored.
\<close>

theorem C10_parse_defaults:
  "(\<forall>d. data resp = Some d \<and> data_error d = None \<and> truthyStr (data_access_token d) \<longrightarrow>
      (\<exists>tr. parseTokenResponse resp now = Inr tr
         \<and> resp_access_token tr = the (data_access_token d)
         \<and> (data_token_type d = None \<longrightarrow> resp_token_type tr = js ''Bearer'')
         \<and> (data_expires_in d = None \<longrightarrow> resp_expires_in tr = 3600)))
   \<and> (\<forall>d. data resp = Some d \<and> data_error d = None \<and> \<not> truthyStr (data_access_token d) \<longrightarrow>
      (\<exists>e. parseTokenResponse resp now = Inl e
         \<and> name e = TalkSASAAPIError \<and> name e \<noteq> TalkSASAAuthenticationError
         \<and> message e = js ''Invalid token response: missing access_token''))
   \<and> (\<forall>d v reqs'. \<not> isTokenValid c nowCheck
         \<and> validateTokenRequest (clientCredentialsRequest c) = Inr v
         \<and> oauthMakeRequest net c reqs (js ''POST'') (js ''/oauth/token'') = (Inr resp, reqs')
         \<and> data resp = Some d \<and> data_error d = None \<and> truthyStr (data_access_token d)
         \<and> data_expires_in d = None \<longrightarrow>
      (\<exists>ti. tokenInfo (fst (snd (getAccessToken net c reqs nowCheck now nowStore))) = Some ti
         \<and> access_token ti = the (data_access_token d)
         \<and> expires_at ti = nowStore + 3600 * 1000))"
proof (intro conjI allI impI)
  fix d
  assume "data resp = Some d \<and> data_error d = None \<and> truthyStr (data_access_token d)"
  then show "\<exists>tr. parseTokenResponse resp now = Inr tr
         \<and> resp_access_token tr = the (data_access_token d)
         \<and> (data_token_type d = None \<longrightarrow> resp_token_type tr = js ''Bearer'')
         \<and> (data_expires_in d = None \<longrightarrow> resp_expires_in tr = 3600)"
    by (simp add: parseTokenResponse_def truthyStr_def truthyNum_def orElse_def)
next
  fix d
  assume "data resp = Some d \<and> data_error d = None \<and> \<not> truthyStr (data_access_token d)"
  then show "\<exists>e. parseTokenResponse resp now = Inl e
         \<and> name e = TalkSASAAPIError \<and> name e \<noteq> TalkSASAAuthenticationError
         \<and> message e = js ''Invalid token response: missing access_token''"
    by (simp add: parseTokenResponse_def truthyStr_def APIError_def)
next
  fix d v reqs'
  assume h: "\<not> isTokenValid c nowCheck
         \<and> validateTokenRequest (clientCredentialsRequest c) = Inr v
         \<and> oauthMakeRequest net c reqs (js ''POST'') (js ''/oauth/token'') = (Inr resp, reqs')
         \<and> data resp = Some d \<and> data_error d = None \<and> truthyStr (data_access_token d)
         \<and> data_expires_in d = None"
  let ?tr = "\<lparr>resp_access_token = the (data_access_token d),
             resp_token_type = orElse (data_token_type d) (js ''Bearer''),
             resp_expires_in = 3600,
             resp_refresh_token = data_refresh_token d,
             resp_scope = data_scope d,
             resp_created_at = (if truthyNum (data_created_at d) then the (data_created_at d) else now)\<rparr>"
  from h have p: "parseTokenResponse resp now = Inr ?tr"
    by (simp add: parseTokenResponse_def truthyStr_def truthyNum_def)
  from h p have r: "requestToken net c reqs (clientCredentialsRequest c) now = (Inr ?tr, reqs')"
    by (simp add: requestToken_def)
  from h have nv: "\<not> isTokenValid c nowCheck" by simp
  show "\<exists>ti. tokenInfo (fst (snd (getAccessToken net c reqs nowCheck now nowStore))) = Some ti
         \<and> access_token ti = the (data_access_token d)
         \<and> expires_at ti = nowStore + 3600 * 1000"
    by (simp add: getAccessToken_fresh[OF nv r])
qed

text \<open>
  The theorem at the bodies \<open>{access_token: "tok-123"}\<close> and \<open>{}\<close>, and at the example
  client with a token endpoint that answers \<open>{access_token: "tok-123"}\<close>, the token being
  stored at clock reading 5000.
\<close>

theorem C10_parse_defaults_witness:
  "parseTokenResponse \<lparr>status = 200, data = Some (emptyData\<lparr>data_access_token := Some (js ''tok-123'')\<rparr>)\<rparr> 1000
     = Inr \<lparr>resp_access_token = js ''tok-123'', resp_token_type = js ''Bearer'',
            resp_expires_in = 3600, resp_refresh_token = None, resp_scope = None,
            resp_created_at = 1000\<rparr>
   \<and> parseTokenResponse \<lparr>status = 200, data = Some emptyData\<rparr> 1000
     = Inl (APIError (js ''Invalid token response: missing access_token'') None None False)
   \<and> tokenInfo (fst (snd (getAccessToken bareTokenNet exampleClient [] 1000 1000 5000)))
     = Some \<lparr>access_token = js ''tok-123'', token_type = js ''Bearer'', expires_at = 3605000,
             scope = None, refresh_token = None, isExpired = False\<rparr>"
  using C10_parse_defaults [of "\<lparr>status = 200, data = Some (emptyData\<lparr>data_access_token := Some (js ''tok-123'')\<rparr>)\<rparr>"
      1000 exampleClient 1000 bareTokenNet "[]" 5000]
    C10_parse_defaults [of "\<lparr>status = 200, data = Some emptyData\<rparr>" 1000]
  by (simp add: getAccessToken_def requestToken_def validateTokenRequest_def
      clientCredentialsRequest_def isTokenExpired_def
      exampleClient_def andThen_def validateGrantType_def validGrantTypes_def
      validateClientId_def validateClientSecret_def trim_def isWhiteSpace_def truthyStr_def
      truthyNum_def js_simps oauthMakeRequest_def retry_def retry_loop.simps
      defaultRetryOptions_def bareTokenNet_def emptyData_def parseTokenResponse_def orElse_def
      Let_def APIError_def)

section \<open>Properties of the validators\<close>

subsection \<open>\<open>formatPhoneNumber\<close>\<close>










subsection \<open>\<open>validateApiKey\<close>\<close>

lemma length_trim_le: "length (trim s) \<le> length s"
proof -
  have "length (trim s) \<le> length (dropWhile isWhiteSpace s)"
    unfolding trim_def length_rev
    by (rule order_trans[OF length_dropWhile_le]) simp
  also have "\<dots> \<le> length s" by (rule length_dropWhile_le)
  finally show ?thesis .
qed

lemma validateApiKey_accepts:
  assumes "length apiKey \<le> 200" "10 \<le> length (trim apiKey)"
    and "list_all isPrintableAscii (trim apiKey)" "\<not> attackPatternFound (trim apiKey)"
  shows "validateApiKey apiKey = Inr (trim apiKey)"
proof -
  have l: "10 \<le> length apiKey" using assms(2) length_trim_le[of apiKey] by linarith
  then have ne: "apiKey \<noteq> []" by auto
  have tne: "trim apiKey \<noteq> []" using assms(2) by auto
  show ?thesis
    using assms l ne tne by (simp add: validateApiKey_def Let_def testPrintableAscii_def)
qed

lemma pipes_trimmed: "trim (js ''api|key|with|pipes'') = js ''api|key|with|pipes''"
  by (simp add: trim_def js_simps isWhiteSpace_def)

lemma pipes_printable: "list_all isPrintableAscii (js ''api|key|with|pipes'')"
  by (simp add: js_simps isPrintableAscii_def)

lemma pipes_harmless: "\<not> attackPatternFound (js ''api|key|with|pipes'')"
  by (simp add: attackPatternFound_def testLiteralIgnoreCase_def startsWith_def
        toLowerAscii_def isWhiteSpace_def js_simps)


lemma trim_trailing_spaces:
  assumes "s \<noteq> []" "\<not> isWhiteSpace (hd s)"
  shows "trim (s @ replicate n 0x20) = trim s"
proof -
  have sp: "isWhiteSpace 0x20" by (simp add: isWhiteSpace_def)
  have a: "dropWhile isWhiteSpace (s @ replicate n 0x20) = s @ replicate n 0x20"
    using assms by (cases s) auto
  have b: "dropWhile isWhiteSpace s = s" using assms by (cases s) auto
  have "dropWhile isWhiteSpace (replicate n 0x20 @ rev s) = dropWhile isWhiteSpace (rev s)"
    by (rule dropWhile_append2) (use sp in auto)
  then show ?thesis by (simp add: trim_def a b)
qed

text \<open>
  Claim C8 as stated bounds the length of the trimmed key.  The limit of 200 is checked
  on the key as given, before trimming: the key \<open>api|key|with|pipes\<close> followed by 183
  spaces has 201 characters and is refused as too long, although its trimmed form has 18
  printable characters and matches no attack pattern.
\<close>

theorem C8_validate_api_key_counterexample:
  "10 \<le> length (trim (js ''api|key|with|pipes'' @ replicate 183 0x20))
   \<and> length (trim (js ''api|key|with|pipes'' @ replicate 183 0x20)) \<le> 200
   \<and> list_all isPrintableAscii (trim (js ''api|key|with|pipes'' @ replicate 183 0x20))
   \<and> \<not> attackPatternFound (trim (js ''api|key|with|pipes'' @ replicate 183 0x20))
   \<and> validateApiKey (js ''api|key|with|pipes'' @ replicate 183 0x20) =
        Inl (ValidationError (js ''API key is too long for processing''))
   \<and> validateApiKey (js ''api|key|with|pipes'' @ replicate 183 0x20) \<noteq>
        Inr (trim (js ''api|key|with|pipes'' @ replicate 183 0x20))"
proof -
  have h: "js ''api|key|with|pipes'' \<noteq> [] \<and> \<not> isWhiteSpace (hd (js ''api|key|with|pipes''))"
    by (simp add: js_simps isWhiteSpace_def)
  have t: "trim (js ''api|key|with|pipes'' @ replicate 183 0x20) = js ''api|key|with|pipes''"
    using trim_trailing_spaces[of "js ''api|key|with|pipes''" 183] h pipes_trimmed by simp
  have v: "validateApiKey (js ''api|key|with|pipes'' @ replicate 183 0x20) =
        Inl (ValidationError (js ''API key is too long for processing''))"
    by (simp add: validateApiKey_def length_js)
  show ?thesis
    unfolding t v using pipes_printable pipes_harmless by (simp add: length_js)
qed

text \<open>
  Claim C8, amended.  \<open>validateApiKey("short")\<close> throws a validation error (length below
  10).  Every key that has at most 200 characters as given and whose trimmed form has at
  least 10 characters, all of them printable ASCII (\<open>0x20\<close> to \<open>0x7E\<close>, which includes the
  pipe character \<open>0x7C\<close>), and matches none of the attack patterns is returned trimmed;
  in particular \<open>validateApiKey("api|key|with|pipes")\<close> returns \<open>"api|key|with|pipes"\<close>.
\<close>

theorem C8_validate_api_key:
  "validateApiKey (js ''short'') = Inl (ValidationError (js ''API key appears to be invalid''))
   \<and> (length apiKey \<le> 200 \<and> 10 \<le> length (trim apiKey)
        \<and> list_all isPrintableAscii (trim apiKey) \<and> \<not> attackPatternFound (trim apiKey) \<longrightarrow>
       validateApiKey apiKey = Inr (trim apiKey))
   \<and> isPrintableAscii 0x7C
   \<and> validateApiKey (js ''api|key|with|pipes'') = Inr (js ''api|key|with|pipes'')"
proof (intro conjI impI)
  have "trim (js ''short'') = js ''short''"
    by (simp add: trim_def js_simps isWhiteSpace_def)
  then show "validateApiKey (js ''short'') =
      Inl (ValidationError (js ''API key appears to be invalid''))"
    by (simp add: validateApiKey_def length_js) (simp add: js_simps)
next
  assume "length apiKey \<le> 200 \<and> 10 \<le> length (trim apiKey)
        \<and> list_all isPrintableAscii (trim apiKey) \<and> \<not> attackPatternFound (trim apiKey)"
  then show "validateApiKey apiKey = Inr (trim apiKey)"
    using validateApiKey_accepts by blast
next
  show "isPrintableAscii 0x7C" by (simp add: isPrintableAscii_def)
next
  have "validateApiKey (js ''api|key|with|pipes'') = Inr (trim (js ''api|key|with|pipes''))"
    by (rule validateApiKey_accepts)
       (simp_all add: pipes_trimmed pipes_printable pipes_harmless length_js)
  then show "validateApiKey (js ''api|key|with|pipes'') = Inr (js ''api|key|with|pipes'')"
    by (simp add: pipes_trimmed)
qed

text \<open>The theorem at a key from the test suite, with two spaces on either side.\<close>

theorem C8_validate_api_key_witness:
  "length (js ''  valid-api-key-123  '') \<le> 200
   \<and> trim (js ''  valid-api-key-123  '') = js ''valid-api-key-123''
   \<and> validateApiKey (js ''  valid-api-key-123  '') = Inr (js ''valid-api-key-123'')"
proof -
  have t: "trim (js ''  valid-api-key-123  '') = js ''valid-api-key-123''"
    by (simp add: trim_def js_simps isWhiteSpace_def)
  have p: "list_all isPrintableAscii (js ''valid-api-key-123'')"
    by (simp add: js_simps isPrintableAscii_def)
  have a: "\<not> attackPatternFound (js ''valid-api-key-123'')"
    by (simp add: attackPatternFound_def testLiteralIgnoreCase_def startsWith_def
        toLowerAscii_def isWhiteSpace_def js_simps)
  have l: "length (js ''  valid-api-key-123  '') \<le> 200" by (simp add: length_js)
  have l': "10 \<le> length (js ''valid-api-key-123'')" by (simp add: length_js)
  from C8_validate_api_key [of "js ''  valid-api-key-123  ''"] t p a l l'
  have "validateApiKey (js ''  valid-api-key-123  '') = Inr (js ''valid-api-key-123'')"
    by simp
  with t l show ?thesis by simp
qed

section \<open>Properties of the message scrubbing\<close>

subsection \<open>Matching\<close>

lemma lowerLetter_facts:
  assumes "isLowerLetter c"
  shows "toLowerAscii c = c" "isValueChar c" "\<not> isSeparator c" "\<not> isWhiteSpace c"
  using assms
  by (auto simp: isLowerLetter_def toLowerAscii_def isValueChar_def isSeparator_def isWhiteSpace_def)

lemma folded_letter_facts:
  assumes "toLowerAscii x = c" "isLowerLetter c"
  shows "isValueChar x" "\<not> isSeparator x" "\<not> isWhiteSpace x"
  using assms
  by (auto simp: isLowerLetter_def toLowerAscii_def isValueChar_def isSeparator_def isWhiteSpace_def
      split: if_splits)

lemma isKeyword_lower: "isKeyword key \<Longrightarrow> map toLowerAscii key = key"
  by (induction key) (auto simp: isKeyword_def lowerLetter_facts(1) list_all_iff intro: map_idI)

lemma placeholder_lower: "isKeyword key \<Longrightarrow> map toLowerAscii (placeholder key) = placeholder key"
  by (simp add: placeholder_def isKeyword_lower) (simp add: js_simps toLowerAscii_def)

lemma allTails_drop: "allTails P s \<Longrightarrow> i < length s \<Longrightarrow> P (drop i s)"
proof (induction s arbitrary: i)
  case Nil
  then show ?case by simp
next
  case (Cons c cs)
  then show ?case by (cases i) auto
qed

lemma match_Nil [simp]: "matchKeyValue key [] = None"
  by (simp add: matchKeyValue_def)

lemma match_SomeD:
  assumes "matchKeyValue key s = Some rest"
  shows "\<exists>c r. startsWith (map toLowerAscii s) key \<and> drop (length key) s = c # r \<and> isSeparator c
           \<and> dropWhile isWhiteSpace r \<noteq> [] \<and> isValueChar (hd (dropWhile isWhiteSpace r))
           \<and> rest = dropWhile isValueChar (dropWhile isWhiteSpace r)"
  using assms
  by (auto simp: matchKeyValue_def Let_def takeWhile_eq_Nil_iff split: if_splits list.splits)

lemma match_SomeI:
  assumes "startsWith (map toLowerAscii s) key" "drop (length key) s = c # r" "isSeparator c"
    "dropWhile isWhiteSpace r \<noteq> []" "isValueChar (hd (dropWhile isWhiteSpace r))"
  shows "matchKeyValue key s = Some (dropWhile isValueChar (dropWhile isWhiteSpace r))"
  using assms
  by (auto simp: matchKeyValue_def Let_def takeWhile_eq_Nil_iff)

lemma match_valueEnds: "matchKeyValue key s = Some rest \<Longrightarrow> valueEnds rest"
  using hd_dropWhile[of isValueChar] by (auto simp: valueEnds_def dest!: match_SomeD)

lemma match_is_drop:
  assumes "matchKeyValue key s = Some rest"
  shows "\<exists>m. rest = drop m s"
proof -
  from match_SomeD[OF assms] obtain c r where d: "drop (length key) s = c # r"
    and rest: "rest = dropWhile isValueChar (dropWhile isWhiteSpace r)" by blast
  have r: "r = drop (Suc (length key)) s"
    using d by (metis drop_Suc drop_drop list.sel(3) plus_1_eq_Suc tl_drop)
  have "rest = drop (length (takeWhile isValueChar (dropWhile isWhiteSpace r)))
                 (drop (length (takeWhile isWhiteSpace r)) r)"
    unfolding rest by (simp add: dropWhile_eq_drop[symmetric])
  then show ?thesis unfolding r by (metis drop_drop)
qed

lemma match_hd:
  assumes "matchKeyValue key s = Some rest" "isKeyword key"
  shows "s \<noteq> [] \<and> toLowerAscii (hd s) = hd key"
proof -
  from match_SomeD[OF assms(1)] have st: "take (length key) (map toLowerAscii s) = key"
    by (auto simp: startsWith_def)
  from assms(2) obtain k ks where k: "key = k # ks" by (cases key) (auto simp: isKeyword_def)
  from st k show ?thesis by (cases s) auto
qed

lemma mismatch_no_match:
  assumes "mismatch w key" "map toLowerAscii w = w"
  shows "matchKeyValue key (w @ X) = None"
proof (rule ccontr)
  assume "matchKeyValue key (w @ X) \<noteq> None"
  then obtain rest where "matchKeyValue key (w @ X) = Some rest" by auto
  from match_SomeD[OF this] have "take (length key) (w @ map toLowerAscii X) = key"
    by (auto simp: startsWith_def assms(2))
  then have "take (min (length w) (length key)) (take (length key) (w @ map toLowerAscii X))
           = take (min (length w) (length key)) key" by simp
  then have "take (min (length w) (length key)) w = take (min (length w) (length key)) key"
    by (simp add: min_def split: if_splits)
  with assms(1) show False by (simp add: mismatch_def)
qed

lemma placeholder_match:
  assumes "isKeyword key" "valueEnds X"
  shows "matchKeyValue key (placeholder key @ X) = Some X"
proof -
  have star: "isValueChar 0x2A" "\<not> isWhiteSpace 0x2A"
    by (simp_all add: isValueChar_def isWhiteSpace_def)
  have p: "placeholder key @ X = key @ 0x3D # ([0x2A, 0x2A, 0x2A] @ X)"
    by (simp add: placeholder_def js_simps)
  have st: "startsWith (map toLowerAscii (placeholder key @ X)) key"
    unfolding p using isKeyword_lower[OF assms(1)] by (simp add: startsWith_def)
  have d: "drop (length key) (placeholder key @ X) = 0x3D # ([0x2A, 0x2A, 0x2A] @ X)"
    unfolding p by simp
  have dv: "dropWhile isValueChar X = X"
    using assms(2) by (cases X) (auto simp: valueEnds_def)
  have "matchKeyValue key (placeholder key @ X) =
          Some (dropWhile isValueChar (dropWhile isWhiteSpace ([0x2A, 0x2A, 0x2A] @ X)))"
    by (rule match_SomeI[OF st d]) (simp_all add: isSeparator_def star)
  then show ?thesis by (simp add: star dv)
qed

lemma replace_no_match:
  "matchKeyValue key (c # cs) = None \<Longrightarrow>
   replaceKeyValue key rep (c # cs) = c # replaceKeyValue key rep cs"
  by simp

lemma replace_match:
  assumes "matchKeyValue key s = Some rest"
  shows "replaceKeyValue key rep s = rep @ replaceKeyValue key rep rest"
  using assms by (cases s) simp_all

lemma valueEnds_no_match:
  assumes "isKeyword key" "valueEnds s"
  shows "matchKeyValue key s = None"
proof (rule ccontr)
  assume "matchKeyValue key s \<noteq> None"
  then obtain rest where m: "matchKeyValue key s = Some rest" by auto
  from match_hd[OF m assms(1)] have s: "s \<noteq> []" and h: "toLowerAscii (hd s) = hd key" by simp_all
  from assms(1) have "isLowerLetter (hd key)"
    by (cases key) (auto simp: isKeyword_def)
  from folded_letter_facts(1)[OF h this] assms(2) s show False by (simp add: valueEnds_def)
qed

lemma valueEnds_replace:
  assumes "isKeyword key" "valueEnds s"
  shows "valueEnds (replaceKeyValue key rep s)"
proof (cases s)
  case Nil
  then show ?thesis by (simp add: valueEnds_def)
next
  case (Cons c cs)
  with valueEnds_no_match[OF assms] assms(2) show ?thesis
    by (simp add: valueEnds_def)
qed

subsection \<open>A match that begins before a replacement\<close>

text \<open>
  If a pattern matches a text in which a replacement was made behind a non-empty prefix,
  it matched there before the replacement, provided that every proper suffix of the
  pattern's keyword is apart from the placeholder put in.
\<close>

lemma overlap_head:
  assumes kk: "isKeyword key"
    and pre: "pre \<noteq> []"
    and ov: "allTails (\<lambda>w. apart w (placeholder key)) (tl K)"
    and m: "matchKeyValue K (pre @ placeholder key @ Y) \<noteq> None"
    and u: "u \<noteq> []" "toLowerAscii (hd u) = hd key"
  shows "matchKeyValue K (pre @ u) \<noteq> None"
proof -
  let ?rep = "placeholder key"
  let ?n = "length K" and ?p = "length pre"
  from kk have hk: "isLowerLetter (hd key)" by (cases key) (auto simp: isKeyword_def)
  from kk have hrep: "hd ?rep = hd key" "?rep \<noteq> []"
    by (cases key; simp add: placeholder_def isKeyword_def)+
  from m obtain rest where "matchKeyValue K (pre @ ?rep @ Y) = Some rest" by auto
  from match_SomeD[OF this] obtain c r where
      st: "take ?n (map toLowerAscii pre @ ?rep @ map toLowerAscii Y) = K"
    and d: "drop ?n (pre @ ?rep @ Y) = c # r" and sep: "isSeparator c"
    and v: "dropWhile isWhiteSpace r \<noteq> []" "isValueChar (hd (dropWhile isWhiteSpace r))"
    by (auto simp: startsWith_def placeholder_lower[OF kk])
  consider "?p < ?n" | "?p = ?n" | "?n < ?p" by linarith
  then show ?thesis
  proof cases
    case 1
    from pre have p1: "1 \<le> ?p" by (cases pre) auto
    define Z where "Z = ?rep @ map toLowerAscii Y"
    have "take ?n (map toLowerAscii pre @ Z) = map toLowerAscii pre @ take (?n - ?p) Z"
      using 1 by simp
    with st have "K = map toLowerAscii pre @ take (?n - ?p) Z" by (simp add: Z_def)
    then have "drop ?p K = drop ?p (map toLowerAscii pre @ take (?n - ?p) Z)" by simp
    then have dk: "drop ?p K = take (?n - ?p) (?rep @ map toLowerAscii Y)"
      by (simp add: Z_def)
    have "take (min (?n - ?p) (length ?rep)) (drop ?p K) = take (min (?n - ?p) (length ?rep)) ?rep"
      unfolding dk by (simp add: min_def)
    then have nm: "\<not> mismatch (drop ?p K) ?rep" by (simp add: mismatch_def)
    have "apart (drop (?p - 1) (tl K)) ?rep"
      using allTails_drop[OF ov, of "?p - 1"] 1 p1 by simp
    moreover have "drop (?p - 1) (tl K) = drop ?p K"
    proof -
      from p1 obtain q where q: "?p = Suc q" by (cases ?p) auto
      show ?thesis unfolding q by (simp add: drop_Suc)
    qed
    ultimately have "apart (drop ?p K) ?rep" by simp
    with nm have short: "?n - ?p < length ?rep" and ns: "\<not> isSeparator (?rep ! (?n - ?p))"
      by (simp_all add: apart_def)
    have "drop ?n (pre @ ?rep @ Y) = drop (?n - ?p) ?rep @ Y"
      using 1 short by simp
    with d have "drop (?n - ?p) ?rep @ Y = c # r" by simp
    moreover have "drop (?n - ?p) ?rep = ?rep ! (?n - ?p) # drop (Suc (?n - ?p)) ?rep"
      using short by (rule Cons_nth_drop_Suc[symmetric])
    ultimately have "c = ?rep ! (?n - ?p)" by simp
    with sep ns show ?thesis by simp
  next
    case 2
    with d have "?rep @ Y = c # r" by simp
    with hrep have "c = hd key" by (cases ?rep) auto
    with sep lowerLetter_facts(3)[OF hk] show ?thesis by simp
  next
    case 3
    then obtain p' where dp: "drop ?n pre = c # p'" and r: "r = p' @ ?rep @ Y"
      using d by (cases "drop ?n pre") auto
    have st': "startsWith (map toLowerAscii (pre @ u)) K"
      using st 3 by (simp add: startsWith_def)
    have d': "drop ?n (pre @ u) = c # (p' @ u)" using dp 3 by simp
    have hu: "isValueChar (hd u)" "\<not> isWhiteSpace (hd u)"
      using folded_letter_facts[OF u(2) hk] by simp_all
    have "dropWhile isWhiteSpace (p' @ u) \<noteq> [] \<and> isValueChar (hd (dropWhile isWhiteSpace (p' @ u)))"
    proof (cases "\<exists>x\<in>set p'. \<not> isWhiteSpace x")
      case True
      then obtain x where x: "x \<in> set p'" "\<not> isWhiteSpace x" by blast
      have a: "dropWhile isWhiteSpace (p' @ u) = dropWhile isWhiteSpace p' @ u"
        and b: "dropWhile isWhiteSpace r = dropWhile isWhiteSpace p' @ ?rep @ Y"
        unfolding r using x by simp_all
      have ne: "dropWhile isWhiteSpace p' \<noteq> []" using x by auto
      from v ne show ?thesis unfolding a b by simp
    next
      case False
      then have "dropWhile isWhiteSpace (p' @ u) = dropWhile isWhiteSpace u" by simp
      also have "\<dots> = u" using hu u(1) by (cases u) auto
      finally show ?thesis using u(1) hu by simp
    qed
    then have "matchKeyValue K (pre @ u) =
        Some (dropWhile isValueChar (dropWhile isWhiteSpace (p' @ u)))"
      by (intro match_SomeI[OF st' d' sep]) simp_all
    then show ?thesis by simp
  qed
qed

lemma head_match:
  assumes kk: "isKeyword key"
    and ov: "allTails (\<lambda>w. apart w (placeholder key)) (tl K)"
  shows "pre \<noteq> [] \<Longrightarrow>
         matchKeyValue K (pre @ replaceKeyValue key (placeholder key) u) \<noteq> None \<Longrightarrow>
         matchKeyValue K (pre @ u) \<noteq> None"
proof (induction "length u" arbitrary: u pre rule: less_induct)
  case less
  show ?case
  proof (cases u)
    case Nil
    with less.prems show ?thesis by simp
  next
    case (Cons c cs)
    show ?thesis
    proof (cases "matchKeyValue key u")
      case None
      with Cons have r: "replaceKeyValue key (placeholder key) u
                          = c # replaceKeyValue key (placeholder key) cs" by simp
      have "matchKeyValue K ((pre @ [c]) @ cs) \<noteq> None"
        by (rule less.hyps) (use less.prems r Cons in simp_all)
      with Cons show ?thesis by simp
    next
      case (Some rest)
      from replace_match[OF Some]
      have r: "replaceKeyValue key (placeholder key) u
                 = placeholder key @ replaceKeyValue key (placeholder key) rest" .
      from match_hd[OF Some kk] have u: "u \<noteq> []" "toLowerAscii (hd u) = hd key" by simp_all
      show ?thesis
        by (rule overlap_head[OF kk less.prems(1) ov _ u])
           (use less.prems(2) r in simp)
    qed
  qed
qed

subsection \<open>Scrubbed texts\<close>

lemma scrubbed_Nil [simp]: "scrubbed K []"
  by (simp add: scrubbed_def)

lemma scrubbed_Cons:
  "scrubbed K (c # s) \<longleftrightarrow>
     (\<forall>rest. matchKeyValue K (c # s) = Some rest \<longrightarrow> c # s = placeholder K @ rest) \<and> scrubbed K s"
proof
  assume a: "scrubbed K (c # s)"
  have "\<forall>rest. matchKeyValue K (c # s) = Some rest \<longrightarrow> c # s = placeholder K @ rest"
    using a[unfolded scrubbed_def, rule_format, of 0] by simp
  moreover have "scrubbed K s"
    unfolding scrubbed_def
  proof (intro allI impI)
    fix i rest assume "matchKeyValue K (drop i s) = Some rest"
    then show "drop i s = placeholder K @ rest"
      using a[unfolded scrubbed_def, rule_format, of "Suc i" rest] by simp
  qed
  ultimately show "(\<forall>rest. matchKeyValue K (c # s) = Some rest \<longrightarrow> c # s = placeholder K @ rest)
      \<and> scrubbed K s" by blast
next
  assume a: "(\<forall>rest. matchKeyValue K (c # s) = Some rest \<longrightarrow> c # s = placeholder K @ rest)
      \<and> scrubbed K s"
  show "scrubbed K (c # s)"
    unfolding scrubbed_def
  proof (intro allI impI)
    fix i rest assume m: "matchKeyValue K (drop i (c # s)) = Some rest"
    show "drop i (c # s) = placeholder K @ rest"
    proof (cases i)
      case 0
      with m a show ?thesis by simp
    next
      case (Suc j)
      with m a show ?thesis by (simp add: scrubbed_def)
    qed
  qed
qed

lemma scrubbed_drop: "scrubbed K s \<Longrightarrow> scrubbed K (drop m s)"
  unfolding scrubbed_def
proof (intro allI impI)
  fix i rest
  assume a: "\<forall>i rest. matchKeyValue K (drop i s) = Some rest \<longrightarrow> drop i s = placeholder K @ rest"
    and m: "matchKeyValue K (drop i (drop m s)) = Some rest"
  have d: "drop i (drop m s) = drop (i + m) s" by simp
  from a[rule_format, of "i + m" rest] m show "drop i (drop m s) = placeholder K @ rest"
    unfolding d by simp
qed

lemma scrubbed_append:
  assumes "scrubbed K X"
    and "\<And>i rest. i < length w \<Longrightarrow> matchKeyValue K (drop i w @ X) = Some rest \<Longrightarrow>
           drop i w @ X = placeholder K @ rest"
  shows "scrubbed K (w @ X)"
  unfolding scrubbed_def
proof (intro allI impI)
  fix i rest assume m: "matchKeyValue K (drop i (w @ X)) = Some rest"
  show "drop i (w @ X) = placeholder K @ rest"
  proof (cases "i < length w")
    case True
    then have "drop i (w @ X) = drop i w @ X" by simp
    with m assms(2)[OF True] show ?thesis by simp
  next
    case False
    then have d: "drop i (w @ X) = drop (i - length w) X" by simp
    from assms(1)[unfolded scrubbed_def, rule_format, of "i - length w" rest] m
    show ?thesis unfolding d by simp
  qed
qed

lemma skip_mismatching:
  assumes "allTails (\<lambda>w. mismatch w key) w" "map toLowerAscii w = w"
  shows "replaceKeyValue key rep (w @ X) = w @ replaceKeyValue key rep X"
  using assms
proof (induction w)
  case Nil
  then show ?case by simp
next
  case (Cons a w)
  from Cons.prems have mm: "mismatch (a # w) key" and t: "allTails (\<lambda>w. mismatch w key) w"
    and l: "map toLowerAscii (a # w) = a # w" and l': "map toLowerAscii w = w"
    by simp_all
  have "matchKeyValue key ((a # w) @ X) = None" by (rule mismatch_no_match[OF mm l])
  then have "replaceKeyValue key rep ((a # w) @ X) = a # replaceKeyValue key rep (w @ X)"
    by simp
  with Cons.IH[OF t l'] show ?case by simp
qed

lemma drop_placeholder_lower:
  assumes "isKeyword key"
  shows "map toLowerAscii (drop i (placeholder key)) = drop i (placeholder key)"
  using placeholder_lower[OF assms] by (metis drop_map)

lemma tl_placeholder_lower:
  assumes "isKeyword key"
  shows "map toLowerAscii (tl (placeholder key)) = tl (placeholder key)"
  using placeholder_lower[OF assms] by (metis map_tl)

text \<open>One replacement leaves no match of its own pattern other than its placeholder.\<close>

lemma replace_scrubs:
  assumes kk: "isKeyword key"
    and ov: "allTails (\<lambda>w. apart w (placeholder key)) (tl key)"
    and self: "allTails (\<lambda>w. mismatch w key) (tl (placeholder key))"
  shows "scrubbed key (replaceKeyValue key (placeholder key) s)"
proof (induction "length s" arbitrary: s rule: less_induct)
  case less
  let ?R = "replaceKeyValue key (placeholder key)"
  show ?case
  proof (cases s)
    case Nil
    then show ?thesis by simp
  next
    case (Cons c cs)
    show ?thesis
    proof (cases "matchKeyValue key s")
      case None
      with Cons have r: "?R s = c # ?R cs" by simp
      have tail: "scrubbed key (?R cs)" by (rule less.hyps) (simp add: Cons)
      have "matchKeyValue key (c # ?R cs) = None"
      proof (rule ccontr)
        assume "matchKeyValue key (c # ?R cs) \<noteq> None"
        then have "matchKeyValue key ([c] @ ?R cs) \<noteq> None" by simp
        from head_match[OF kk ov _ this] have "matchKeyValue key ([c] @ cs) \<noteq> None" by simp
        with None Cons show False by simp
      qed
      with tail show ?thesis unfolding r by (simp add: scrubbed_Cons)
    next
      case (Some rest0)
      have r: "?R s = placeholder key @ ?R rest0" by (rule replace_match[OF Some])
      have tail: "scrubbed key (?R rest0)"
        by (rule less.hyps) (rule matchKeyValue_shorter[OF Some])
      have ve: "valueEnds (?R rest0)"
        by (rule valueEnds_replace[OF kk match_valueEnds[OF Some]])
      show ?thesis
        unfolding r
      proof (rule scrubbed_append[OF tail])
        fix i rest
        assume i: "i < length (placeholder key)"
          and m: "matchKeyValue key (drop i (placeholder key) @ ?R rest0) = Some rest"
        show "drop i (placeholder key) @ ?R rest0 = placeholder key @ rest"
        proof (cases i)
          case 0
          with m placeholder_match[OF kk ve] show ?thesis by simp
        next
          case (Suc j)
          have d: "drop i (placeholder key) = drop j (tl (placeholder key))"
            unfolding Suc by (simp add: drop_Suc)
          have "mismatch (drop j (tl (placeholder key))) key"
            by (rule allTails_drop[OF self]) (use i Suc in simp)
          then have "matchKeyValue key (drop i (placeholder key) @ ?R rest0) = None"
            unfolding d[symmetric]
            by (rule mismatch_no_match) (rule drop_placeholder_lower[OF kk])
          with m show ?thesis by simp
        qed
      qed
    qed
  qed
qed

text \<open>A later replacement keeps what an earlier one achieved.\<close>

lemma replace_keeps_scrubbed:
  assumes kK: "isKeyword K" and kk: "isKeyword key"
    and ov: "allTails (\<lambda>w. apart w (placeholder key)) (tl K)"
    and inK: "allTails (\<lambda>w. mismatch w key) (tl (placeholder K))"
    and inRep: "allTails (\<lambda>w. mismatch w K) (placeholder key)"
  shows "scrubbed K s \<Longrightarrow> scrubbed K (replaceKeyValue key (placeholder key) s)"
proof (induction "length s" arbitrary: s rule: less_induct)
  case less
  let ?R = "replaceKeyValue key (placeholder key)"
  show ?case
  proof (cases s)
    case Nil
    then show ?thesis by simp
  next
    case (Cons c cs)
    show ?thesis
    proof (cases "matchKeyValue key s")
      case None
      with Cons have r: "?R s = c # ?R cs" by simp
      from less.prems Cons have "scrubbed K cs" by (simp add: scrubbed_Cons)
      then have tail: "scrubbed K (?R cs)" by (intro less.hyps) (simp_all add: Cons)
      have "\<forall>rest'. matchKeyValue K (c # ?R cs) = Some rest' \<longrightarrow> c # ?R cs = placeholder K @ rest'"
      proof (intro allI impI)
        fix rest' assume m: "matchKeyValue K (c # ?R cs) = Some rest'"
        then have "matchKeyValue K ([c] @ ?R cs) \<noteq> None" by simp
        from head_match[OF kk ov _ this] obtain rest1 where
          m1: "matchKeyValue K s = Some rest1" using Cons by auto
        from less.prems[unfolded scrubbed_def, rule_format, of 0 rest1] m1
        have s: "s = placeholder K @ rest1" by simp
        from kK obtain h where h: "placeholder K = h # tl (placeholder K)"
          by (cases K) (auto simp: placeholder_def isKeyword_def)
        have "?R s = ?R (h # (tl (placeholder K) @ rest1))"
          using s h by (metis append_Cons)
        also have "\<dots> = h # ?R (tl (placeholder K) @ rest1)"
          using None s h by (metis append_Cons replace_no_match)
        also have "\<dots> = h # (tl (placeholder K) @ ?R rest1)"
          by (simp add: skip_mismatching[OF inK tl_placeholder_lower[OF kK]])
        also have "\<dots> = placeholder K @ ?R rest1" using h by (metis append_Cons)
        finally have rs: "?R s = placeholder K @ ?R rest1" .
        have ve: "valueEnds (?R rest1)"
          by (rule valueEnds_replace[OF kk match_valueEnds[OF m1]])
        from placeholder_match[OF kK ve] m have "rest' = ?R rest1"
          unfolding r[symmetric] rs by simp
        then show "c # ?R cs = placeholder K @ rest'"
          unfolding r[symmetric] rs by simp
      qed
      with tail show ?thesis unfolding r by (simp add: scrubbed_Cons)
    next
      case (Some rest0)
      have r: "?R s = placeholder key @ ?R rest0" by (rule replace_match[OF Some])
      from match_is_drop[OF Some] obtain m where "rest0 = drop m s" by blast
      with less.prems have "scrubbed K rest0" by (simp add: scrubbed_drop)
      then have tail: "scrubbed K (?R rest0)"
        by (intro less.hyps) (simp_all add: matchKeyValue_shorter[OF Some])
      show ?thesis
        unfolding r
      proof (rule scrubbed_append[OF tail])
        fix i rest
        assume i: "i < length (placeholder key)"
          and m: "matchKeyValue K (drop i (placeholder key) @ ?R rest0) = Some rest"
        have "mismatch (drop i (placeholder key)) K"
          by (rule allTails_drop[OF inRep i])
        then have "matchKeyValue K (drop i (placeholder key) @ ?R rest0) = None"
          by (rule mismatch_no_match) (rule drop_placeholder_lower[OF kk])
        with m show "drop i (placeholder key) @ ?R rest0 = placeholder K @ rest" by simp
      qed
    qed
  qed
qed

subsection \<open>Texts in which a pattern does not match\<close>

text \<open>
  A replacement passes over a text in which its pattern matches nowhere, whatever
  follows the text.
\<close>

lemma noMatchIn_append:
  "noMatchIn K (a @ b) X = (noMatchIn K a (b @ X) \<and> noMatchIn K b X)"
  by (induction a) simp_all

lemma noMatchIn_skip:
  "noMatchIn K w X \<Longrightarrow> replaceKeyValue K rep (w @ X) = w @ replaceKeyValue K rep X"
  by (induction w) simp_all

lemma noMatchIn_drop:
  "noMatchIn K w X \<Longrightarrow> i < length w \<Longrightarrow> matchKeyValue K (drop i w @ X) = None"
proof (induction w arbitrary: i)
  case Nil
  then show ?case by simp
next
  case (Cons a w)
  then show ?case by (cases i) simp_all
qed

lemma noMatchIn_all:
  "noMatchIn K w [] \<longleftrightarrow> (\<forall>i. matchKeyValue K (drop i w) = None)"
proof
  assume a: "noMatchIn K w []"
  show "\<forall>i. matchKeyValue K (drop i w) = None"
  proof
    fix i show "matchKeyValue K (drop i w) = None"
    proof (cases "i < length w")
      case True
      from noMatchIn_drop[OF a True] show ?thesis by simp
    next
      case False
      then show ?thesis by simp
    qed
  qed
next
  assume "\<forall>i. matchKeyValue K (drop i w) = None"
  then show "noMatchIn K w []"
  proof (induction w)
    case Nil
    then show ?case by simp
  next
    case (Cons a w)
    from Cons.prems[rule_format, of 0] have h: "matchKeyValue K (a # w) = None" by simp
    have "\<forall>i. matchKeyValue K (drop i w) = None"
    proof
      fix i show "matchKeyValue K (drop i w) = None"
        using Cons.prems[rule_format, of "Suc i"] by simp
    qed
    with Cons.IH h show ?case by simp
  qed
qed

text \<open>A replacement behind a text creates no match that begins inside it.\<close>

lemma quiet_replace:
  assumes kk: "isKeyword key"
    and ov: "allTails (\<lambda>w. apart w (placeholder key)) (tl K)"
  shows "noMatchIn K w X \<Longrightarrow> noMatchIn K w (replaceKeyValue key (placeholder key) X)"
proof (induction w)
  case Nil
  then show ?case by simp
next
  case (Cons a w)
  from Cons.prems have h: "matchKeyValue K ((a # w) @ X) = None" and t: "noMatchIn K w X"
    by simp_all
  have "matchKeyValue K ((a # w) @ replaceKeyValue key (placeholder key) X) = None"
  proof (rule ccontr)
    assume "matchKeyValue K ((a # w) @ replaceKeyValue key (placeholder key) X) \<noteq> None"
    from head_match[OF kk ov _ this] h show False by simp
  qed
  with Cons.IH[OF t] show ?case by simp
qed

lemma lowered_mismatch_no_match:
  assumes "mismatch (map toLowerAscii w) key"
  shows "matchKeyValue key (w @ X) = None"
proof (rule ccontr)
  assume "matchKeyValue key (w @ X) \<noteq> None"
  then obtain rest where "matchKeyValue key (w @ X) = Some rest" by auto
  from match_SomeD[OF this] have "take (length key) (map toLowerAscii w @ map toLowerAscii X) = key"
    by (auto simp: startsWith_def)
  then have "take (min (length w) (length key))
               (take (length key) (map toLowerAscii w @ map toLowerAscii X))
           = take (min (length w) (length key)) key" by simp
  then have "take (min (length w) (length key)) (map toLowerAscii w)
           = take (min (length w) (length key)) key"
    by (simp add: min_def split: if_splits)
  with assms show False by (simp add: mismatch_def)
qed

lemma noMatchIn_mismatching:
  "allTails (\<lambda>u. mismatch u K) (map toLowerAscii w) \<Longrightarrow> noMatchIn K w X"
proof (induction w)
  case Nil
  then show ?case by simp
next
  case (Cons a w)
  from Cons.prems have mm: "mismatch (map toLowerAscii (a # w)) K"
    and t: "allTails (\<lambda>u. mismatch u K) (map toLowerAscii w)" by simp_all
  from lowered_mismatch_no_match[OF mm] Cons.IH[OF t] show ?case by simp
qed

lemma noMatchIn_whitespace:
  assumes "isKeyword K"
  shows "list_all isWhiteSpace w \<Longrightarrow> noMatchIn K w X"
proof (induction w)
  case Nil
  then show ?case by simp
next
  case (Cons a w)
  from Cons.prems have a: "isWhiteSpace a" and t: "list_all isWhiteSpace w" by simp_all
  have "matchKeyValue K ((a # w) @ X) = None"
  proof (rule ccontr)
    assume "matchKeyValue K ((a # w) @ X) \<noteq> None"
    then obtain rest where m: "matchKeyValue K ((a # w) @ X) = Some rest" by auto
    from match_hd[OF m assms] have h: "toLowerAscii a = hd K" by simp
    from assms have "isLowerLetter (hd K)" by (cases K) (auto simp: isKeyword_def)
    from folded_letter_facts(3)[OF h this] a show False by simp
  qed
  with Cons.IH[OF t] show ?case by simp
qed

text \<open>The pattern of a keyword matches a pair of that keyword as a whole.\<close>

lemma pair_match:
  assumes k: "map toLowerAscii k = key" and c: "isSeparator c"
    and w: "list_all isWhiteSpace w" and v: "v \<noteq> []" "list_all isValueChar v"
    and X: "valueEnds X"
  shows "matchKeyValue key (k @ c # w @ v @ X) = Some X"
proof -
  from k have len: "length k = length key" by (metis length_map)
  have st: "startsWith (map toLowerAscii (k @ c # w @ v @ X)) key"
    using k by (simp add: startsWith_def)
  have d: "drop (length key) (k @ c # w @ v @ X) = c # (w @ v @ X)"
    using len by simp
  from v obtain x xs where vx: "v = x # xs" by (cases v) auto
  with v(2) have x: "isValueChar x" by simp
  then have nx: "\<not> isWhiteSpace x" by (simp add: isValueChar_def)
  have dw: "dropWhile isWhiteSpace (w @ v @ X) = v @ X"
    using w nx vx by (simp add: dropWhile_append3 list_all_iff)
  have dv: "dropWhile isValueChar X = X"
    using X by (cases X) (auto simp: valueEnds_def)
  have dvv: "dropWhile isValueChar (v @ X) = X"
    using v(2) dv by (simp add: dropWhile_append list_all_iff)
  have ne: "dropWhile isWhiteSpace (w @ v @ X) \<noteq> []" unfolding dw using v(1) by simp
  have hv: "isValueChar (hd (dropWhile isWhiteSpace (w @ v @ X)))"
    unfolding dw using vx x by simp
  have "matchKeyValue key (k @ c # w @ v @ X) =
          Some (dropWhile isValueChar (dropWhile isWhiteSpace (w @ v @ X)))"
    by (rule match_SomeI[OF st d c ne hv])
  then show ?thesis by (simp add: dw dvv)
qed

subsection \<open>The four keywords\<close>

lemma four_keywords:
  "isKeyword (js ''password'')" "isKeyword (js ''token'')" "isKeyword (js ''key'')"
  "isKeyword (js ''secret'')"
  by (simp_all add: isKeyword_def js_simps isLowerLetter_def)

lemma placeholders:
  "placeholder (js ''password'') = js ''password=***''"
  "placeholder (js ''token'') = js ''token=***''"
  "placeholder (js ''key'') = js ''key=***''"
  "placeholder (js ''secret'') = js ''secret=***''"
  by (simp_all add: placeholder_def js_simps)

lemma own_overlap:
  "allTails (\<lambda>w. apart w (placeholder (js ''password''))) (tl (js ''password''))"
  "allTails (\<lambda>w. apart w (placeholder (js ''token''))) (tl (js ''token''))"
  "allTails (\<lambda>w. apart w (placeholder (js ''key''))) (tl (js ''key''))"
  "allTails (\<lambda>w. apart w (placeholder (js ''secret''))) (tl (js ''secret''))"
  by (simp_all add: placeholder_def js_simps mismatch_def apart_def)

lemma own_inside:
  "allTails (\<lambda>w. mismatch w (js ''password'')) (tl (placeholder (js ''password'')))"
  "allTails (\<lambda>w. mismatch w (js ''token'')) (tl (placeholder (js ''token'')))"
  "allTails (\<lambda>w. mismatch w (js ''key'')) (tl (placeholder (js ''key'')))"
  "allTails (\<lambda>w. mismatch w (js ''secret'')) (tl (placeholder (js ''secret'')))"
  by (simp_all add: placeholder_def js_simps mismatch_def)

lemma later_overlap:
  "allTails (\<lambda>w. apart w (placeholder (js ''token''))) (tl (js ''password''))"
  "allTails (\<lambda>w. apart w (placeholder (js ''key''))) (tl (js ''password''))"
  "allTails (\<lambda>w. apart w (placeholder (js ''secret''))) (tl (js ''password''))"
  "allTails (\<lambda>w. apart w (placeholder (js ''key''))) (tl (js ''token''))"
  "allTails (\<lambda>w. apart w (placeholder (js ''secret''))) (tl (js ''token''))"
  "allTails (\<lambda>w. apart w (placeholder (js ''secret''))) (tl (js ''key''))"
  by (simp_all add: placeholder_def js_simps mismatch_def apart_def)

text \<open>
  The same for a keyword and the placeholder of a keyword replaced before it.  The last
  letter of \<open>secret\<close> begins \<open>token=***\<close>, where it is followed by a letter.
\<close>

lemma earlier_overlap:
  "allTails (\<lambda>w. apart w (placeholder (js ''password''))) (tl (js ''token''))"
  "allTails (\<lambda>w. apart w (placeholder (js ''password''))) (tl (js ''key''))"
  "allTails (\<lambda>w. apart w (placeholder (js ''token''))) (tl (js ''key''))"
  "allTails (\<lambda>w. apart w (placeholder (js ''password''))) (tl (js ''secret''))"
  "allTails (\<lambda>w. apart w (placeholder (js ''token''))) (tl (js ''secret''))"
  "allTails (\<lambda>w. apart w (placeholder (js ''key''))) (tl (js ''secret''))"
  by (simp_all add: placeholder_def js_simps mismatch_def apart_def isSeparator_def)

lemma later_inside_earlier:
  "allTails (\<lambda>w. mismatch w (js ''token'')) (tl (placeholder (js ''password'')))"
  "allTails (\<lambda>w. mismatch w (js ''key'')) (tl (placeholder (js ''password'')))"
  "allTails (\<lambda>w. mismatch w (js ''secret'')) (tl (placeholder (js ''password'')))"
  "allTails (\<lambda>w. mismatch w (js ''key'')) (tl (placeholder (js ''token'')))"
  "allTails (\<lambda>w. mismatch w (js ''secret'')) (tl (placeholder (js ''token'')))"
  "allTails (\<lambda>w. mismatch w (js ''secret'')) (tl (placeholder (js ''key'')))"
  by (simp_all add: placeholder_def js_simps mismatch_def)

lemma earlier_inside_later:
  "allTails (\<lambda>w. mismatch w (js ''password'')) (placeholder (js ''token''))"
  "allTails (\<lambda>w. mismatch w (js ''password'')) (placeholder (js ''key''))"
  "allTails (\<lambda>w. mismatch w (js ''password'')) (placeholder (js ''secret''))"
  "allTails (\<lambda>w. mismatch w (js ''token'')) (placeholder (js ''key''))"
  "allTails (\<lambda>w. mismatch w (js ''token'')) (placeholder (js ''secret''))"
  "allTails (\<lambda>w. mismatch w (js ''key'')) (placeholder (js ''secret''))"
  by (simp_all add: placeholder_def js_simps mismatch_def)

text \<open>
  And for a keyword replaced later: its pattern matches nowhere in an earlier
  placeholder, and the pattern of a keyword replaced earlier matches nowhere in a later
  keyword with its separator.
\<close>

lemma later_in_placeholder:
  "allTails (\<lambda>w. mismatch w (js ''token'')) (placeholder (js ''password''))"
  "allTails (\<lambda>w. mismatch w (js ''key'')) (placeholder (js ''password''))"
  "allTails (\<lambda>w. mismatch w (js ''secret'')) (placeholder (js ''password''))"
  "allTails (\<lambda>w. mismatch w (js ''key'')) (placeholder (js ''token''))"
  "allTails (\<lambda>w. mismatch w (js ''secret'')) (placeholder (js ''token''))"
  "allTails (\<lambda>w. mismatch w (js ''secret'')) (placeholder (js ''key''))"
  by (simp_all add: placeholder_def js_simps mismatch_def)

lemma earlier_in_keyword:
  assumes "isSeparator c"
  shows "allTails (\<lambda>u. mismatch u (js ''password'')) (js ''token'' @ [c])"
    "allTails (\<lambda>u. mismatch u (js ''password'')) (js ''key'' @ [c])"
    "allTails (\<lambda>u. mismatch u (js ''token'')) (js ''key'' @ [c])"
    "allTails (\<lambda>u. mismatch u (js ''password'')) (js ''secret'' @ [c])"
    "allTails (\<lambda>u. mismatch u (js ''token'')) (js ''secret'' @ [c])"
    "allTails (\<lambda>u. mismatch u (js ''key'')) (js ''secret'' @ [c])"
  using assms by (auto simp: isSeparator_def js_simps mismatch_def)

lemma skip_placeholder:
  assumes "isKeyword key" "allTails (\<lambda>w. mismatch w K) (placeholder key)"
  shows "replaceKeyValue K rep (placeholder key @ X) = placeholder key @ replaceKeyValue K rep X"
  by (rule skip_mismatching[OF assms(2) placeholder_lower[OF assms(1)]])

lemma pair_quiet:
  assumes K: "isKeyword K" and z: "allTails (\<lambda>u. mismatch u K) (key @ [c])"
    and k: "map toLowerAscii k = key" and c: "isSeparator c"
    and w: "list_all isWhiteSpace w" and v: "noMatchIn K v post"
  shows "noMatchIn K (k @ c # w @ v) post"
proof -
  from c have "toLowerAscii c = c" by (auto simp: isSeparator_def toLowerAscii_def)
  with k have "map toLowerAscii (k @ [c]) = key @ [c]" by simp
  with z have "allTails (\<lambda>u. mismatch u K) (map toLowerAscii (k @ [c]))" by simp
  then have a: "noMatchIn K (k @ [c]) (w @ v @ post)" by (rule noMatchIn_mismatching)
  have b: "noMatchIn K w (v @ post)" by (rule noMatchIn_whitespace[OF K w])
  have "noMatchIn K ((k @ [c]) @ w @ v) post"
    using a b v by (simp only: noMatchIn_append append_assoc simp_thms)
  then show ?thesis by simp
qed

lemma pair_replaced:
  assumes k: "map toLowerAscii k = key" and c: "isSeparator c"
    and w: "list_all isWhiteSpace w" and v: "v \<noteq> []" "list_all isValueChar v"
    and X: "valueEnds X"
  shows "replaceKeyValue key rep (k @ c # w @ v @ X) = rep @ replaceKeyValue key rep X"
  by (rule replace_match[OF pair_match[OF assms]])

lemma pair_skipped:
  assumes "noMatchIn K (k @ c # w @ v) X"
  shows "replaceKeyValue K rep (k @ c # w @ v @ X) = k @ c # w @ v @ replaceKeyValue K rep X"
  using noMatchIn_skip[OF assms, of rep] by simp

lemma replaceSecrets_stages:
  "replaceSecrets msg =
     replaceKeyValue (js ''secret'') (placeholder (js ''secret''))
       (replaceKeyValue (js ''key'') (placeholder (js ''key''))
         (replaceKeyValue (js ''token'') (placeholder (js ''token''))
           (replaceKeyValue (js ''password'') (placeholder (js ''password'')) msg)))"
  by (simp add: replaceSecrets_def placeholders)

text \<open>A text in which no pattern matches is kept in front of any text.\<close>

lemma replaceSecrets_prefix:
  assumes p: "noMatchIn (js ''password'') pre X" and t: "noMatchIn (js ''token'') pre X"
    and k: "noMatchIn (js ''key'') pre X" and s: "noMatchIn (js ''secret'') pre X"
  shows "replaceSecrets (pre @ X) = pre @ replaceSecrets X"
proof -
  let ?P = "replaceKeyValue (js ''password'') (placeholder (js ''password''))"
  let ?T = "replaceKeyValue (js ''token'') (placeholder (js ''token''))"
  let ?K = "replaceKeyValue (js ''key'') (placeholder (js ''key''))"
  let ?S = "replaceKeyValue (js ''secret'') (placeholder (js ''secret''))"
  have s0: "?P (pre @ X) = pre @ ?P X" by (rule noMatchIn_skip[OF p])
  have t1: "noMatchIn (js ''token'') pre (?P X)"
    by (rule quiet_replace[OF four_keywords(1) earlier_overlap(1) t])
  have s1: "?T (pre @ ?P X) = pre @ ?T (?P X)" by (rule noMatchIn_skip[OF t1])
  have k1: "noMatchIn (js ''key'') pre (?P X)"
    by (rule quiet_replace[OF four_keywords(1) earlier_overlap(2) k])
  have k2: "noMatchIn (js ''key'') pre (?T (?P X))"
    by (rule quiet_replace[OF four_keywords(2) earlier_overlap(3) k1])
  have s2: "?K (pre @ ?T (?P X)) = pre @ ?K (?T (?P X))" by (rule noMatchIn_skip[OF k2])
  have e1: "noMatchIn (js ''secret'') pre (?P X)"
    by (rule quiet_replace[OF four_keywords(1) earlier_overlap(4) s])
  have e2: "noMatchIn (js ''secret'') pre (?T (?P X))"
    by (rule quiet_replace[OF four_keywords(2) earlier_overlap(5) e1])
  have e3: "noMatchIn (js ''secret'') pre (?K (?T (?P X)))"
    by (rule quiet_replace[OF four_keywords(3) earlier_overlap(6) e2])
  have s3: "?S (pre @ ?K (?T (?P X))) = pre @ ?S (?K (?T (?P X)))"
    by (rule noMatchIn_skip[OF e3])
  show ?thesis
    unfolding replaceSecrets_stages by (simp only: s0 s1 s2 s3)
qed

text \<open>A pair at the front, keyword by keyword.\<close>

lemma pair_password:
  assumes k: "map toLowerAscii k = js ''password''" and c: "isSeparator c"
    and w: "list_all isWhiteSpace w" and v: "v \<noteq> []" "list_all isValueChar v"
    and X: "valueEnds X"
  shows "replaceSecrets (k @ c # w @ v @ X) = placeholder (js ''password'') @ replaceSecrets X"
proof -
  let ?P = "replaceKeyValue (js ''password'') (placeholder (js ''password''))"
  let ?T = "replaceKeyValue (js ''token'') (placeholder (js ''token''))"
  let ?K = "replaceKeyValue (js ''key'') (placeholder (js ''key''))"
  let ?S = "replaceKeyValue (js ''secret'') (placeholder (js ''secret''))"
  let ?ph = "placeholder (js ''password'')"
  have s0: "?P (k @ c # w @ v @ X) = ?ph @ ?P X"
    by (rule pair_replaced[OF k c w v X])
  have s1: "?T (?ph @ ?P X) = ?ph @ ?T (?P X)"
    by (rule skip_placeholder[OF four_keywords(1) later_in_placeholder(1)])
  have s2: "?K (?ph @ ?T (?P X)) = ?ph @ ?K (?T (?P X))"
    by (rule skip_placeholder[OF four_keywords(1) later_in_placeholder(2)])
  have s3: "?S (?ph @ ?K (?T (?P X))) = ?ph @ ?S (?K (?T (?P X)))"
    by (rule skip_placeholder[OF four_keywords(1) later_in_placeholder(3)])
  show ?thesis
    unfolding replaceSecrets_stages by (simp only: s0 s1 s2 s3)
qed

lemma pair_token:
  assumes k: "map toLowerAscii k = js ''token''" and c: "isSeparator c"
    and w: "list_all isWhiteSpace w" and v: "v \<noteq> []" "list_all isValueChar v"
    and X: "valueEnds X"
    and p: "noMatchIn (js ''password'') v X"
  shows "replaceSecrets (k @ c # w @ v @ X) = placeholder (js ''token'') @ replaceSecrets X"
proof -
  let ?P = "replaceKeyValue (js ''password'') (placeholder (js ''password''))"
  let ?T = "replaceKeyValue (js ''token'') (placeholder (js ''token''))"
  let ?K = "replaceKeyValue (js ''key'') (placeholder (js ''key''))"
  let ?S = "replaceKeyValue (js ''secret'') (placeholder (js ''secret''))"
  let ?ph = "placeholder (js ''token'')"
  have p0: "noMatchIn (js ''password'') (k @ c # w @ v) X"
    by (rule pair_quiet[OF four_keywords(1) earlier_in_keyword(1)[OF c] k c w p])
  have s0: "?P (k @ c # w @ v @ X) = k @ c # w @ v @ ?P X" by (rule pair_skipped[OF p0])
  have v0: "valueEnds (?P X)" by (rule valueEnds_replace[OF four_keywords(1) X])
  have s1: "?T (k @ c # w @ v @ ?P X) = ?ph @ ?T (?P X)"
    by (rule pair_replaced[OF k c w v v0])
  have s2: "?K (?ph @ ?T (?P X)) = ?ph @ ?K (?T (?P X))"
    by (rule skip_placeholder[OF four_keywords(2) later_in_placeholder(4)])
  have s3: "?S (?ph @ ?K (?T (?P X))) = ?ph @ ?S (?K (?T (?P X)))"
    by (rule skip_placeholder[OF four_keywords(2) later_in_placeholder(5)])
  show ?thesis
    unfolding replaceSecrets_stages by (simp only: s0 s1 s2 s3)
qed

lemma pair_key:
  assumes k: "map toLowerAscii k = js ''key''" and c: "isSeparator c"
    and w: "list_all isWhiteSpace w" and v: "v \<noteq> []" "list_all isValueChar v"
    and X: "valueEnds X"
    and p: "noMatchIn (js ''password'') v X" and t: "noMatchIn (js ''token'') v X"
  shows "replaceSecrets (k @ c # w @ v @ X) = placeholder (js ''key'') @ replaceSecrets X"
proof -
  let ?P = "replaceKeyValue (js ''password'') (placeholder (js ''password''))"
  let ?T = "replaceKeyValue (js ''token'') (placeholder (js ''token''))"
  let ?K = "replaceKeyValue (js ''key'') (placeholder (js ''key''))"
  let ?S = "replaceKeyValue (js ''secret'') (placeholder (js ''secret''))"
  let ?ph = "placeholder (js ''key'')"
  have p0: "noMatchIn (js ''password'') (k @ c # w @ v) X"
    by (rule pair_quiet[OF four_keywords(1) earlier_in_keyword(2)[OF c] k c w p])
  have s0: "?P (k @ c # w @ v @ X) = k @ c # w @ v @ ?P X" by (rule pair_skipped[OF p0])
  have t0: "noMatchIn (js ''token'') (k @ c # w @ v) X"
    by (rule pair_quiet[OF four_keywords(2) earlier_in_keyword(3)[OF c] k c w t])
  have t1: "noMatchIn (js ''token'') (k @ c # w @ v) (?P X)"
    by (rule quiet_replace[OF four_keywords(1) earlier_overlap(1) t0])
  have s1: "?T (k @ c # w @ v @ ?P X) = k @ c # w @ v @ ?T (?P X)"
    by (rule pair_skipped[OF t1])
  have v0: "valueEnds (?P X)" by (rule valueEnds_replace[OF four_keywords(1) X])
  have v1: "valueEnds (?T (?P X))" by (rule valueEnds_replace[OF four_keywords(2) v0])
  have s2: "?K (k @ c # w @ v @ ?T (?P X)) = ?ph @ ?K (?T (?P X))"
    by (rule pair_replaced[OF k c w v v1])
  have s3: "?S (?ph @ ?K (?T (?P X))) = ?ph @ ?S (?K (?T (?P X)))"
    by (rule skip_placeholder[OF four_keywords(3) later_in_placeholder(6)])
  show ?thesis
    unfolding replaceSecrets_stages by (simp only: s0 s1 s2 s3)
qed

lemma pair_secret:
  assumes k: "map toLowerAscii k = js ''secret''" and c: "isSeparator c"
    and w: "list_all isWhiteSpace w" and v: "v \<noteq> []" "list_all isValueChar v"
    and X: "valueEnds X"
    and p: "noMatchIn (js ''password'') v X" and t: "noMatchIn (js ''token'') v X"
    and y: "noMatchIn (js ''key'') v X"
  shows "replaceSecrets (k @ c # w @ v @ X) = placeholder (js ''secret'') @ replaceSecrets X"
proof -
  let ?P = "replaceKeyValue (js ''password'') (placeholder (js ''password''))"
  let ?T = "replaceKeyValue (js ''token'') (placeholder (js ''token''))"
  let ?K = "replaceKeyValue (js ''key'') (placeholder (js ''key''))"
  let ?S = "replaceKeyValue (js ''secret'') (placeholder (js ''secret''))"
  let ?ph = "placeholder (js ''secret'')"
  have p0: "noMatchIn (js ''password'') (k @ c # w @ v) X"
    by (rule pair_quiet[OF four_keywords(1) earlier_in_keyword(4)[OF c] k c w p])
  have s0: "?P (k @ c # w @ v @ X) = k @ c # w @ v @ ?P X" by (rule pair_skipped[OF p0])
  have t0: "noMatchIn (js ''token'') (k @ c # w @ v) X"
    by (rule pair_quiet[OF four_keywords(2) earlier_in_keyword(5)[OF c] k c w t])
  have t1: "noMatchIn (js ''token'') (k @ c # w @ v) (?P X)"
    by (rule quiet_replace[OF four_keywords(1) earlier_overlap(1) t0])
  have s1: "?T (k @ c # w @ v @ ?P X) = k @ c # w @ v @ ?T (?P X)"
    by (rule pair_skipped[OF t1])
  have y0: "noMatchIn (js ''key'') (k @ c # w @ v) X"
    by (rule pair_quiet[OF four_keywords(3) earlier_in_keyword(6)[OF c] k c w y])
  have y1: "noMatchIn (js ''key'') (k @ c # w @ v) (?P X)"
    by (rule quiet_replace[OF four_keywords(1) earlier_overlap(2) y0])
  have y2: "noMatchIn (js ''key'') (k @ c # w @ v) (?T (?P X))"
    by (rule quiet_replace[OF four_keywords(2) earlier_overlap(3) y1])
  have s2: "?K (k @ c # w @ v @ ?T (?P X)) = k @ c # w @ v @ ?K (?T (?P X))"
    by (rule pair_skipped[OF y2])
  have v0: "valueEnds (?P X)" by (rule valueEnds_replace[OF four_keywords(1) X])
  have v1: "valueEnds (?T (?P X))" by (rule valueEnds_replace[OF four_keywords(2) v0])
  have v2: "valueEnds (?K (?T (?P X)))" by (rule valueEnds_replace[OF four_keywords(3) v1])
  have s3: "?S (k @ c # w @ v @ ?K (?T (?P X))) = ?ph @ ?S (?K (?T (?P X)))"
    by (rule pair_replaced[OF k c w v v2])
  show ?thesis
    unfolding replaceSecrets_stages by (simp only: s0 s1 s2 s3)
qed

text \<open>The four cases as one.\<close>

lemma replaceSecrets_pair:
  assumes n: "n < 4" and k: "map toLowerAscii k = secretKeys ! n" and c: "isSeparator c"
    and w: "list_all isWhiteSpace w" and v: "v \<noteq> []" "list_all isValueChar v"
    and X: "valueEnds X"
    and q: "\<forall>K\<in>set (take n secretKeys). noMatchIn K v X"
  shows "replaceSecrets (k @ c # w @ v @ X) = (secretKeys ! n) @ js ''=***'' @ replaceSecrets X"
proof -
  from n consider "n = 0" | "n = 1" | "n = 2" | "n = 3" by linarith
  then show ?thesis
  proof cases
    case 1
    with k have k': "map toLowerAscii k = js ''password''" by (simp add: secretKeys_def)
    from pair_password[OF k' c w v X] 1 show ?thesis
      by (simp add: secretKeys_def placeholder_def)
  next
    case 2
    with k have k': "map toLowerAscii k = js ''token''" by (simp add: secretKeys_def)
    from q 2 have p: "noMatchIn (js ''password'') v X" by (simp add: secretKeys_def)
    from pair_token[OF k' c w v X p] 2 show ?thesis
      by (simp add: secretKeys_def placeholder_def)
  next
    case 3
    with k have k': "map toLowerAscii k = js ''key''" by (simp add: secretKeys_def)
    have t2: "take 2 secretKeys = [js ''password'', js ''token'']" by (simp add: secretKeys_def)
    from q 3 have p: "noMatchIn (js ''password'') v X" and t: "noMatchIn (js ''token'') v X"
      by (simp_all add: t2)
    from pair_key[OF k' c w v X p t] 3 show ?thesis
      by (simp add: secretKeys_def placeholder_def)
  next
    case 4
    with k have k': "map toLowerAscii k = js ''secret''" by (simp add: secretKeys_def)
    have t3: "take 3 secretKeys = [js ''password'', js ''token'', js ''key'']"
      by (simp add: secretKeys_def)
    from q 4 have p: "noMatchIn (js ''password'') v X" and t: "noMatchIn (js ''token'') v X"
      and y: "noMatchIn (js ''key'') v X"
      by (simp_all add: t3)
    from pair_secret[OF k' c w v X p t y] 4 show ?thesis
      by (simp add: secretKeys_def placeholder_def)
  qed
qed

lemma replaceSecrets_around_pair:
  assumes pre: "\<forall>K\<in>set secretKeys. noMatchIn K pre (k @ c # w @ v @ X)"
    and n: "n < 4" and k: "map toLowerAscii k = secretKeys ! n" and c: "isSeparator c"
    and w: "list_all isWhiteSpace w" and v: "v \<noteq> []" "list_all isValueChar v"
    and X: "valueEnds X"
    and q: "\<forall>K\<in>set (take n secretKeys). noMatchIn K v X"
  shows "replaceSecrets (pre @ k @ c # w @ v @ X) =
           pre @ (secretKeys ! n) @ js ''=***'' @ replaceSecrets X"
proof -
  from pre have "noMatchIn (js ''password'') pre (k @ c # w @ v @ X)"
    "noMatchIn (js ''token'') pre (k @ c # w @ v @ X)"
    "noMatchIn (js ''key'') pre (k @ c # w @ v @ X)"
    "noMatchIn (js ''secret'') pre (k @ c # w @ v @ X)"
    by (simp_all add: secretKeys_def)
  from replaceSecrets_prefix[OF this]
  have "replaceSecrets (pre @ k @ c # w @ v @ X) = pre @ replaceSecrets (k @ c # w @ v @ X)" .
  with replaceSecrets_pair[OF n k c w v X q] show ?thesis by simp
qed

subsection \<open>The sanitiser\<close>

lemma sanitize_unfold:
  "sanitizeErrorMessage msg =
     (if msg = [] then js ''Unknown error''
      else if length (replaceSecrets msg) > 500 then take 500 (replaceSecrets msg) @ js ''...''
      else replaceSecrets msg)"
  by (simp add: sanitizeErrorMessage_def Let_def)

lemma sanitize_length: "length (sanitizeErrorMessage msg) \<le> 503"
  by (simp add: sanitize_unfold length_js)

lemma replaceSecrets_scrubbed:
  "scrubbed (js ''password'') (replaceSecrets msg)"
  "scrubbed (js ''token'') (replaceSecrets msg)"
  "scrubbed (js ''key'') (replaceSecrets msg)"
  "scrubbed (js ''secret'') (replaceSecrets msg)"
proof -
  let ?p = "replaceKeyValue (js ''password'') (placeholder (js ''password'')) msg"
  let ?t = "replaceKeyValue (js ''token'') (placeholder (js ''token'')) ?p"
  let ?k = "replaceKeyValue (js ''key'') (placeholder (js ''key'')) ?t"
  let ?s = "replaceKeyValue (js ''secret'') (placeholder (js ''secret'')) ?k"
  have all: "replaceSecrets msg = ?s" by (simp add: replaceSecrets_def placeholders)
  have "scrubbed (js ''password'') ?p"
    by (rule replace_scrubs[OF four_keywords(1) own_overlap(1) own_inside(1)])
  then have "scrubbed (js ''password'') ?t"
    by (rule replace_keeps_scrubbed[OF four_keywords(1) four_keywords(2) later_overlap(1)
          later_inside_earlier(1) earlier_inside_later(1)])
  then have "scrubbed (js ''password'') ?k"
    by (rule replace_keeps_scrubbed[OF four_keywords(1) four_keywords(3) later_overlap(2)
          later_inside_earlier(2) earlier_inside_later(2)])
  then have "scrubbed (js ''password'') ?s"
    by (rule replace_keeps_scrubbed[OF four_keywords(1) four_keywords(4) later_overlap(3)
          later_inside_earlier(3) earlier_inside_later(3)])
  then show "scrubbed (js ''password'') (replaceSecrets msg)" by (simp only: all)
  have "scrubbed (js ''token'') ?t"
    by (rule replace_scrubs[OF four_keywords(2) own_overlap(2) own_inside(2)])
  then have "scrubbed (js ''token'') ?k"
    by (rule replace_keeps_scrubbed[OF four_keywords(2) four_keywords(3) later_overlap(4)
          later_inside_earlier(4) earlier_inside_later(4)])
  then have "scrubbed (js ''token'') ?s"
    by (rule replace_keeps_scrubbed[OF four_keywords(2) four_keywords(4) later_overlap(5)
          later_inside_earlier(5) earlier_inside_later(5)])
  then show "scrubbed (js ''token'') (replaceSecrets msg)" by (simp only: all)
  have "scrubbed (js ''key'') ?k"
    by (rule replace_scrubs[OF four_keywords(3) own_overlap(3) own_inside(3)])
  then have "scrubbed (js ''key'') ?s"
    by (rule replace_keeps_scrubbed[OF four_keywords(3) four_keywords(4) later_overlap(6)
          later_inside_earlier(6) earlier_inside_later(6)])
  then show "scrubbed (js ''key'') (replaceSecrets msg)" by (simp only: all)
  have "scrubbed (js ''secret'') ?s"
    by (rule replace_scrubs[OF four_keywords(4) own_overlap(4) own_inside(4)])
  then show "scrubbed (js ''secret'') (replaceSecrets msg)" by (simp only: all)
qed

lemma replace_unmatched:
  assumes "\<forall>i. matchKeyValue key (drop i s) = None"
  shows "replaceKeyValue key rep s = s"
  using assms
proof (induction s)
  case Nil
  then show ?case by simp
next
  case (Cons c cs)
  from Cons.prems[rule_format, of 0] have h: "matchKeyValue key (c # cs) = None" by simp
  have "\<forall>i. matchKeyValue key (drop i cs) = None"
  proof
    fix i show "matchKeyValue key (drop i cs) = None"
      using Cons.prems[rule_format, of "Suc i"] by simp
  qed
  with Cons.IH h show ?case by simp
qed

lemma no_separator_no_match:
  assumes "\<forall>c\<in>set s. \<not> isSeparator c"
  shows "matchKeyValue key (drop i s) = None"
proof (rule ccontr)
  assume "matchKeyValue key (drop i s) \<noteq> None"
  then obtain rest where "matchKeyValue key (drop i s) = Some rest" by auto
  from match_SomeD[OF this] obtain c r where d: "drop (length key) (drop i s) = c # r"
    and sep: "isSeparator c" by blast
  have "c \<in> set (drop (length key) (drop i s))" unfolding d by simp
  then have "c \<in> set (drop i s)" by (rule in_set_dropD)
  then have "c \<in> set s" by (rule in_set_dropD)
  with assms sep show False by blast
qed


lemma no_separator_unchanged:
  assumes "\<forall>c\<in>set s. \<not> isSeparator c"
  shows "replaceKeyValue key rep s = s"
  by (rule replace_unmatched) (simp add: no_separator_no_match[OF assms])

lemma replaceSecrets_unmatched:
  assumes "\<forall>i. matchKeyValue (js ''password'') (drop i msg) = None"
    "\<forall>i. matchKeyValue (js ''token'') (drop i msg) = None"
    "\<forall>i. matchKeyValue (js ''key'') (drop i msg) = None"
    "\<forall>i. matchKeyValue (js ''secret'') (drop i msg) = None"
  shows "replaceSecrets msg = msg"
  using assms by (simp add: replaceSecrets_def replace_unmatched)

text \<open>
  Claim C7 as stated bounds the returned string by 500 characters.  A scrubbed text of
  more than 500 characters is cut to 500 and then extended by three dots: for the message
  of 501 letters a the returned string has 503 characters.
\<close>

theorem C7_sanitize_counterexample:
  "length (sanitizeErrorMessage (replicate 501 0x61)) = 503
   \<and> \<not> length (sanitizeErrorMessage (replicate 501 0x61)) \<le> 500"
proof -
  have "\<forall>c\<in>set (replicate 501 (0x61::nat)). \<not> isSeparator c"
    by (simp add: isSeparator_def)
  then have "replaceSecrets (replicate 501 0x61) = replicate 501 0x61"
    by (simp add: replaceSecrets_def no_separator_unchanged)
  then show ?thesis by (simp add: sanitize_unfold length_js)
qed

text \<open>
  Pairs that overlap are replaced as the order of the four calls has it.  In
  \<open>password=token: abc\<close> the value of \<open>password\<close> ends at the blank, so the first call
  leaves \<open>abc\<close> behind and no pair of \<open>token\<close>; in \<open>secret=token: abc\<close> the call for
  \<open>token\<close> comes first and the call for \<open>secret\<close> then takes its placeholder as the value.
\<close>

lemma nested_pair_example:
  "replaceSecrets (js ''password=token: abc'') = js ''password=*** abc''
   \<and> replaceSecrets (js ''secret=token: abc'') = js ''secret=***''"
  by (simp add: replaceSecrets_def matchKeyValue_def startsWith_def toLowerAscii_def
        isSeparator_def isValueChar_def isWhiteSpace_def js_simps)

text \<open>
  Claim C7, amended.  For every message the returned string has at most 503 characters:
  for the empty message it is \<open>Unknown error\<close>, and otherwise it is the text after the four
  replacements, or, when that text has more than 500 characters, its first 500
  characters followed by three dots.  The four replacements keep a text \<open>pre\<close> in which
  none of the four patterns matches at any position, whatever follows it, and treat what
  follows as they would without \<open>pre\<close>.  Behind such a text, a key-value pair (one of the
  keywords \<open>password\<close>, \<open>token\<close>, \<open>key\<close>, \<open>secret\<close> in either case, \<open>=\<close> or \<open>:\<close>, optional
  white space, and the whole following non-empty run of characters other than white
  space and comma) is replaced by the keyword in lower case followed by \<open>=***\<close>, and the
  text behind the pair is treated as it would be alone, provided that inside the value
  no pattern of a keyword replaced earlier matches (the order is \<open>password\<close>, \<open>token\<close>,
  \<open>key\<close>, \<open>secret\<close>).  In the text after the replacements every pair is scrubbed: wherever
  one of the four patterns matches in it, the text it matches is exactly the keyword
  followed by \<open>=***\<close>.  A message in which none of the four patterns matches anywhere
  passes the replacements unchanged.
\<close>

theorem C7_sanitize_error_message:
  "length (sanitizeErrorMessage msg) \<le> 503
   \<and> sanitizeErrorMessage msg =
        (if msg = [] then js ''Unknown error''
         else if length (replaceSecrets msg) > 500 then take 500 (replaceSecrets msg) @ js ''...''
         else replaceSecrets msg)
   \<and> ((\<forall>K\<in>set secretKeys. noMatchIn K pre X) \<longrightarrow>
        replaceSecrets (pre @ X) = pre @ replaceSecrets X)
   \<and> ((\<forall>K\<in>set secretKeys. noMatchIn K pre (k @ c # w @ v @ post))
        \<and> n < 4 \<and> map toLowerAscii k = secretKeys ! n \<and> isSeparator c
        \<and> list_all isWhiteSpace w \<and> v \<noteq> [] \<and> list_all isValueChar v \<and> valueEnds post
        \<and> (\<forall>K\<in>set (take n secretKeys). noMatchIn K v post) \<longrightarrow>
        replaceSecrets (pre @ k @ c # w @ v @ post) =
          pre @ (secretKeys ! n) @ js ''=***'' @ replaceSecrets post)
   \<and> (\<forall>key\<in>{js ''password'', js ''token'', js ''key'', js ''secret''}. \<forall>i rest.
          matchKeyValue key (drop i (replaceSecrets msg)) = Some rest \<longrightarrow>
          drop i (replaceSecrets msg) = key @ js ''=***'' @ rest)
   \<and> ((\<forall>key\<in>{js ''password'', js ''token'', js ''key'', js ''secret''}. \<forall>i.
           matchKeyValue key (drop i msg) = None) \<longrightarrow> replaceSecrets msg = msg)"
proof (intro conjI)
  show "length (sanitizeErrorMessage msg) \<le> 503" by (rule sanitize_length)
  show "sanitizeErrorMessage msg =
        (if msg = [] then js ''Unknown error''
         else if length (replaceSecrets msg) > 500 then take 500 (replaceSecrets msg) @ js ''...''
         else replaceSecrets msg)"
    by (rule sanitize_unfold)
  show "(\<forall>K\<in>set secretKeys. noMatchIn K pre X) \<longrightarrow>
        replaceSecrets (pre @ X) = pre @ replaceSecrets X"
  proof
    assume "\<forall>K\<in>set secretKeys. noMatchIn K pre X"
    then have "noMatchIn (js ''password'') pre X" "noMatchIn (js ''token'') pre X"
      "noMatchIn (js ''key'') pre X" "noMatchIn (js ''secret'') pre X"
      by (simp_all add: secretKeys_def)
    then show "replaceSecrets (pre @ X) = pre @ replaceSecrets X"
      by (rule replaceSecrets_prefix)
  qed
  show "(\<forall>K\<in>set secretKeys. noMatchIn K pre (k @ c # w @ v @ post))
        \<and> n < 4 \<and> map toLowerAscii k = secretKeys ! n \<and> isSeparator c
        \<and> list_all isWhiteSpace w \<and> v \<noteq> [] \<and> list_all isValueChar v \<and> valueEnds post
        \<and> (\<forall>K\<in>set (take n secretKeys). noMatchIn K v post) \<longrightarrow>
        replaceSecrets (pre @ k @ c # w @ v @ post) =
          pre @ (secretKeys ! n) @ js ''=***'' @ replaceSecrets post"
  proof
    assume h: "(\<forall>K\<in>set secretKeys. noMatchIn K pre (k @ c # w @ v @ post))
        \<and> n < 4 \<and> map toLowerAscii k = secretKeys ! n \<and> isSeparator c
        \<and> list_all isWhiteSpace w \<and> v \<noteq> [] \<and> list_all isValueChar v \<and> valueEnds post
        \<and> (\<forall>K\<in>set (take n secretKeys). noMatchIn K v post)"
    show "replaceSecrets (pre @ k @ c # w @ v @ post) =
          pre @ (secretKeys ! n) @ js ''=***'' @ replaceSecrets post"
      by (rule replaceSecrets_around_pair) (use h in blast)+
  qed
  show "\<forall>key\<in>{js ''password'', js ''token'', js ''key'', js ''secret''}. \<forall>i rest.
          matchKeyValue key (drop i (replaceSecrets msg)) = Some rest \<longrightarrow>
          drop i (replaceSecrets msg) = key @ js ''=***'' @ rest"
  proof -
    have *: "\<And>K. scrubbed K (replaceSecrets msg) \<Longrightarrow>
        \<forall>i rest. matchKeyValue K (drop i (replaceSecrets msg)) = Some rest \<longrightarrow>
          drop i (replaceSecrets msg) = K @ js ''=***'' @ rest"
      by (simp add: scrubbed_def placeholder_def)
    from replaceSecrets_scrubbed[of msg, THEN *] show ?thesis by blast
  qed
  show "(\<forall>key\<in>{js ''password'', js ''token'', js ''key'', js ''secret''}. \<forall>i.
           matchKeyValue key (drop i msg) = None) \<longrightarrow> replaceSecrets msg = msg"
    using replaceSecrets_unmatched[of msg] by blast
qed

text \<open>
  The theorem at the message \<open>auth error, token: abc KEY=x\<close>, taken apart into the text
  before the pair of \<open>token\<close>, that pair, and the rest, which is a blank and a pair of
  \<open>key\<close>; and at the message \<open>Not found\<close>, which has no pair.
\<close>

theorem C7_sanitize_error_message_witness:
  "sanitizeErrorMessage (js ''auth error, token: abc KEY=x'') = js ''auth error, token=*** key=***''
   \<and> matchKeyValue (js ''token'') (drop 12 (js ''auth error, token=*** key=***''))
     = Some (js '' key=***'')
   \<and> sanitizeErrorMessage (js ''Not found'') = js ''Not found''
   \<and> replaceSecrets (js ''Not found '' @ js ''key=1'') = js ''Not found '' @ replaceSecrets (js ''key=1'')"
proof -
  let ?m = "js ''auth error, token: abc KEY=x''"
  let ?o = "js ''auth error, token=*** key=***''"
  note a = C7_sanitize_error_message [where msg = ?m and pre = "js ''auth error, ''" and k = "js ''token''"
      and c = "0x3A" and w = "js '' ''" and v = "js ''abc''" and post = "js '' KEY=x''" and n = 1
      and X = "js '' KEY=x''"]
  note b = C7_sanitize_error_message [where msg = "js ''Not found''" and pre = "js '' ''" and k = "js ''KEY''"
      and c = "0x3D" and w = "[]" and v = "js ''x''" and post = "[]" and n = 2
      and X = "[]"]
  have e: "replaceSecrets [] = []" by (simp add: replaceSecrets_def)
  have m: "?m = js ''auth error, '' @ js ''token'' @ 0x3A # js '' '' @ js ''abc'' @ js '' KEY=x''"
    by (simp add: js_simps)
  have h1: "(\<forall>K\<in>set secretKeys. noMatchIn K (js ''auth error, '')
               (js ''token'' @ 0x3A # js '' '' @ js ''abc'' @ js '' KEY=x''))
        \<and> (1::nat) < 4 \<and> map toLowerAscii (js ''token'') = secretKeys ! 1 \<and> isSeparator 0x3A
        \<and> list_all isWhiteSpace (js '' '') \<and> js ''abc'' \<noteq> [] \<and> list_all isValueChar (js ''abc'')
        \<and> valueEnds (js '' KEY=x'')
        \<and> (\<forall>K\<in>set (take 1 secretKeys). noMatchIn K (js ''abc'') (js '' KEY=x''))"
    by (simp add: matchKeyValue_def startsWith_def toLowerAscii_def
        isSeparator_def isValueChar_def isWhiteSpace_def js_simps secretKeys_def valueEnds_def)
  have h2: "(\<forall>K\<in>set secretKeys. noMatchIn K (js '' '')
               (js ''KEY'' @ 0x3D # [] @ js ''x'' @ []))
        \<and> (2::nat) < 4 \<and> map toLowerAscii (js ''KEY'') = secretKeys ! 2 \<and> isSeparator 0x3D
        \<and> list_all isWhiteSpace [] \<and> js ''x'' \<noteq> [] \<and> list_all isValueChar (js ''x'')
        \<and> valueEnds []
        \<and> (\<forall>K\<in>set (take 2 secretKeys). noMatchIn K (js ''x'') [])"
    by (simp add: matchKeyValue_def startsWith_def toLowerAscii_def
        isSeparator_def isValueChar_def isWhiteSpace_def js_simps secretKeys_def valueEnds_def)
  from a h1 have r1: "replaceSecrets ?m =
      js ''auth error, '' @ (secretKeys ! 1) @ js ''=***'' @ replaceSecrets (js '' KEY=x'')"
    unfolding m by blast
  have m2: "js '' KEY=x'' = js '' '' @ js ''KEY'' @ 0x3D # [] @ js ''x'' @ []"
    by (simp add: js_simps)
  from b h2 have r2: "replaceSecrets (js '' KEY=x'') =
      js '' '' @ (secretKeys ! 2) @ js ''=***'' @ replaceSecrets []"
    unfolding m2 by blast
  have r: "replaceSecrets ?m = ?o"
    unfolding r1 r2 e by (simp add: secretKeys_def js_simps)
  have ne: "?m \<noteq> []" "js ''Not found'' \<noteq> []" by (simp_all add: js_simps)
  have l: "\<not> length ?o > 500" "\<not> length (js ''Not found'') > 500" by (simp_all add: length_js)
  from a ne(1) r l(1) have 1: "sanitizeErrorMessage ?m = ?o" by simp
  have mt: "matchKeyValue (js ''token'') (drop 12 ?o) = Some (js '' key=***'')"
    by (simp add: matchKeyValue_def startsWith_def toLowerAscii_def
        isSeparator_def isValueChar_def isWhiteSpace_def js_simps secretKeys_def valueEnds_def)
  have "matchKeyValue (js ''token'') (drop 12 (replaceSecrets ?m)) = Some (js '' key=***'')"
    by (simp only: r mt)
  with a[THEN conjunct2, THEN conjunct2, THEN conjunct2, THEN conjunct2, THEN conjunct1,
         rule_format, of "js ''token''" 12 "js '' key=***''"]
  have 2: "drop 12 ?o = js ''token'' @ js ''=***'' @ js '' key=***''"
    by (simp add: r)
  have ns: "\<forall>c\<in>set (js ''Not found''). \<not> isSeparator c"
    by (simp add: js_simps isSeparator_def)
  have clean: "\<forall>key\<in>{js ''password'', js ''token'', js ''key'', js ''secret''}. \<forall>i.
     matchKeyValue key (drop i (js ''Not found'')) = None"
    by (intro ballI allI) (rule no_separator_no_match[OF ns])
  from b clean have c: "replaceSecrets (js ''Not found'') = js ''Not found''" by blast
  from b ne(2) c l(2) have 3: "sanitizeErrorMessage (js ''Not found'') = js ''Not found''" by simp
  note d = C7_sanitize_error_message [where msg = "js ''Not found''" and pre = "js ''Not found ''"
      and k = "js ''KEY''" and c = "0x3D" and w = "[]" and v = "js ''x''" and post = "[]"
      and n = 2 and X = "js ''key=1''"]
  have h3: "\<forall>K\<in>set secretKeys. noMatchIn K (js ''Not found '') (js ''key=1'')"
    by (simp add: matchKeyValue_def startsWith_def toLowerAscii_def
        isSeparator_def isValueChar_def isWhiteSpace_def js_simps secretKeys_def valueEnds_def)
  from d h3 have 4: "replaceSecrets (js ''Not found '' @ js ''key=1'') =
      js ''Not found '' @ replaceSecrets (js ''key=1'')"
    by blast
  from 1 mt 2 3 4 show ?thesis by simp
qed

end
